theory Spec2Isabelle
  imports Complex_Main
begin

section \<open>Backoff policy\<close>

text \<open>
  The retry constants are declared twice with the same values: in the Rotector client
  (\<^verbatim>\<open>retryDelayMs\<close>) and in the two scrapers (\<^verbatim>\<open>backoffMs\<close>).
  JavaScript numbers are modelled as rationals: \<^verbatim>\<open>2 ** n\<close> is exact for the
  attempt counts the callers pass (1 to 5), and a negative exponent gives a fraction
  as it does in the source.
\<close>

definition MAX_HTTP_RETRIES :: nat where
  "MAX_HTTP_RETRIES = 5"

definition BASE_RETRY_DELAY_MS :: rat where
  "BASE_RETRY_DELAY_MS = 1000"

definition MAX_RETRY_DELAY_MS :: rat where
  "MAX_RETRY_DELAY_MS = 30000"

text \<open>
  \<^verbatim>\<open>Math.min(MAX_RETRY_DELAY_MS, BASE_RETRY_DELAY_MS * 2 ** (attempt - 1))\<close>
\<close>

definition retryDelayMs :: "int \<Rightarrow> rat" where
  "retryDelayMs attempt =
     min MAX_RETRY_DELAY_MS (BASE_RETRY_DELAY_MS * 2 powi (attempt - 1))"

text \<open>
  \<^verbatim>\<open>Math.min(MAX_RETRY_DELAY_MS, BASE_RETRY_DELAY_MS * 2 ** attempt)\<close>
\<close>

definition backoffMs :: "int \<Rightarrow> rat" where
  "backoffMs attempt =
     min MAX_RETRY_DELAY_MS (BASE_RETRY_DELAY_MS * 2 powi attempt)"

text \<open>
  The delay of the specification, in its own words:
  \<open>min(maxDelay, baseDelay * 2^attempt)\<close> with \<open>baseDelay = 1000\<close> and
  \<open>maxDelay = 30000\<close>.
\<close>

definition spec_delay :: "int \<Rightarrow> rat" where
  "spec_delay attempt = min 30000 (1000 * 2 powi attempt)"

section \<open>Flag levels\<close>

datatype UserFlagStatus =
  SAFE | PENDING | UNSAFE | QUEUED | INTEGRATION | MIXED | PAST_OFFENDER

datatype error =
    UnknownFlagType int
  | NetworkError string
  | HttpError nat
  | ServiceError string
  | JsonError

text \<open>The \<^verbatim>\<open>switch\<close> of \<^verbatim>\<open>flagTypeToEnum\<close>; its default branch throws.\<close>

definition flagTypeToEnum :: "int \<Rightarrow> error + UserFlagStatus" where
  "flagTypeToEnum f =
     (if f = 0 then Inr SAFE
      else if f = 1 then Inr PENDING
      else if f = 2 then Inr UNSAFE
      else if f = 3 then Inr QUEUED
      else if f = 4 then Inr INTEGRATION
      else if f = 5 then Inr MIXED
      else if f = 6 then Inr PAST_OFFENDER
      else Inl (UnknownFlagType f))"

text \<open>
  A numeric TypeScript enum is an object with the reverse mapping from each value to
  its name: \<^verbatim>\<open>UserFlagStatus[0] = "SAFE"\<close>. \<open>UserFlagStatus_name\<close> is that
  reverse mapping on integer keys, so \<^verbatim>\<open>f in UserFlagStatus\<close> is
  \<open>UserFlagStatus_name f \<noteq> None\<close>.
\<close>

definition UserFlagStatus_name :: "int \<rightharpoonup> string" where
  "UserFlagStatus_name =
     [0 \<mapsto> ''SAFE'', 1 \<mapsto> ''PENDING'', 2 \<mapsto> ''UNSAFE'', 3 \<mapsto> ''QUEUED'',
      4 \<mapsto> ''INTEGRATION'', 5 \<mapsto> ''MIXED'', 6 \<mapsto> ''PAST_OFFENDER'']"

text \<open>
  \<^verbatim>\<open>if (f in UserFlagStatus) return UserFlagStatus[f] || "UNKNOWN"; return "UNKNOWN";\<close>
  The empty string is the only falsy name.
\<close>

definition flagTypeToString :: "int \<Rightarrow> string" where
  "flagTypeToString f =
     (case UserFlagStatus_name f of
        Some name \<Rightarrow> (if name = [] then ''UNKNOWN'' else name)
      | None \<Rightarrow> ''UNKNOWN'')"

section \<open>The Rotector client\<close>

text \<open>
  \<^verbatim>\<open>UserStatus\<close> as the interface declares it. The field \<^verbatim>\<open>id\<close> is named
  \<open>status_id\<close> here (\<open>id\<close> is the identity function of HOL).
\<close>

record Reason =
  message :: string
  reason_confidence :: rat
  evidence :: "string list option"

record Reviewer =
  username :: string
  displayName :: string

record UserStatus =
  status_id :: int
  flagType :: int
  confidence :: "rat option"
  reasons :: "(string \<times> Reason) list option"
  reviewer :: "Reviewer option"
  engineVersion :: "string option"
  versionCompatibility :: "string option"
  lastUpdated :: "int option"

text \<open>
  \<^verbatim>\<open>Record<string, UserStatus>\<close>: the keys are the decimal strings of user ids
  (the service's documented format), so that \<^verbatim>\<open>id.toString()\<close> and
  \<^verbatim>\<open>Number(userId)\<close> are inverse to each other on them and a record is a map from
  ids.
\<close>

type_synonym statuses = "int \<rightharpoonup> UserStatus"

record BatchApiResponse =
  success :: bool
  data :: "statuses option"
  error :: "string option"

text \<open>
  The \<^verbatim>\<open>Retry-After\<close> header of a response, and what \<^verbatim>\<open>Number\<close> makes of
  it: \<^verbatim>\<open>Number(null)\<close> is 0, a text that is not a number gives \<^verbatim>\<open>NaN\<close>.
\<close>

datatype retry_after_header = Absent | NotNumeric | Numeric rat

datatype js_number = NaN | Num rat

definition Number_header :: "retry_after_header \<Rightarrow> js_number" where
  "Number_header h = (case h of Absent \<Rightarrow> Num 0 | NotNumeric \<Rightarrow> NaN | Numeric r \<Rightarrow> Num r)"

text \<open>\<^verbatim>\<open>x || d\<close> on numbers: \<^verbatim>\<open>NaN\<close> and 0 are falsy.\<close>

definition js_or :: "js_number \<Rightarrow> rat \<Rightarrow> rat" where
  "js_or x d = (case x of NaN \<Rightarrow> d | Num r \<Rightarrow> (if r = 0 then d else r))"

text \<open>
  What one \<^verbatim>\<open>fetch\<close> of the batch endpoint gives: a rejection (the \<^verbatim>\<open>catch\<close>
  branch), or a response with its status, its \<^verbatim>\<open>Retry-After\<close> header and its
  body as \<^verbatim>\<open>response.json()\<close> reads it (\<open>None\<close> when the body is not JSON and
  \<^verbatim>\<open>json()\<close> rejects).
\<close>

datatype response =
    FetchRejected string
  | Response (status: nat) (retryAfter: retry_after_header) (body: "BatchApiResponse option")

definition response_ok :: "nat \<Rightarrow> bool" where
  "response_ok st = (200 \<le> st \<and> st \<le> 299)"

text \<open>
  What a call does besides returning, in the order it does it: \<open>WaitForGlobal429\<close> is
  \<^verbatim>\<open>await waitForGlobal429()\<close>, \<open>Fetch ids\<close> the request for \<open>ids\<close>,
  \<open>Sleep ms\<close> a backoff sleep and \<open>ActivateGlobal429 ms\<close> the call
  \<^verbatim>\<open>await activateGlobal429(ms)\<close>, which halts the rate gate for \<open>ms\<close> unless
  it is halted already and waits for it to open.
\<close>

datatype event =
    WaitForGlobal429
  | Fetch "int list"
  | Sleep rat
  | ActivateGlobal429 rat

definition after :: "event list \<Rightarrow> event list \<times> 'a \<Rightarrow> event list \<times> 'a" where
  "after evs p = (evs @ fst p, snd p)"

text \<open>
  \<^verbatim>\<open>const retryAfter = Number(response.headers.get("Retry-After")) || 10;
  const waitMs = retryAfter * 1000 + 2500;\<close>
\<close>

definition cooldownMs :: "retry_after_header \<Rightarrow> rat" where
  "cooldownMs h = js_or (Number_header h) 10 * 1000 + 2500"

text \<open>
  The success branch: \<^verbatim>\<open>if (!result.success || !result.data) throw new
  Error(result.error || "Failed to fetch users data"); return result.data;\<close>
\<close>

definition read_result :: "BatchApiResponse option \<Rightarrow> (error + statuses) option" where
  "read_result bd =
     (case bd of
        None \<Rightarrow> Some (Inl JsonError)
      | Some result \<Rightarrow>
          (case data result of
             Some d \<Rightarrow>
               (if success result then Some (Inr d)
                else Some (Inl (ServiceError
                  (case error result of
                     Some m \<Rightarrow> (if m = [] then ''Failed to fetch users data'' else m)
                   | None \<Rightarrow> ''Failed to fetch users data''))))
           | None \<Rightarrow>
               Some (Inl (ServiceError
                 (case error result of
                    Some m \<Rightarrow> (if m = [] then ''Failed to fetch users data'' else m)
                  | None \<Rightarrow> ''Failed to fetch users data'')))))"

text \<open>
  \<^verbatim>\<open>checkMultipleUsers\<close>: the \<^verbatim>\<open>while (true)\<close> loop, run against the list of
  what its successive requests receive. Each turn of the loop takes one element of the
  list, so the recursion is structural. The result is \<open>None\<close> when the list ends
  before the loop does: the request then in flight is never answered and the call is
  still pending. \<open>Some (Inl e)\<close> is a \<^verbatim>\<open>throw\<close>, \<open>Some (Inr d)\<close> the returned
  record.
\<close>

fun checkMultipleUsers_loop ::
  "nat \<Rightarrow> int list \<Rightarrow> response list \<Rightarrow> event list \<times> (error + statuses) option" where
  "checkMultipleUsers_loop consecutiveFailures userIds [] =
     ([WaitForGlobal429, Fetch userIds], None)"
| "checkMultipleUsers_loop consecutiveFailures userIds (FetchRejected msg # rs) =
     (if consecutiveFailures + 1 > MAX_HTTP_RETRIES
      then ([WaitForGlobal429, Fetch userIds], Some (Inl (NetworkError msg)))
      else after [WaitForGlobal429, Fetch userIds,
                  Sleep (retryDelayMs (int (consecutiveFailures + 1)))]
             (checkMultipleUsers_loop (consecutiveFailures + 1) userIds rs))"
| "checkMultipleUsers_loop consecutiveFailures userIds (Response st ra bd # rs) =
     (if response_ok st
      then ([WaitForGlobal429, Fetch userIds], read_result bd)
      else if st = 429
      then after [WaitForGlobal429, Fetch userIds, ActivateGlobal429 (cooldownMs ra)]
             (checkMultipleUsers_loop 0 userIds rs)
      else if consecutiveFailures + 1 > MAX_HTTP_RETRIES
      then ([WaitForGlobal429, Fetch userIds], Some (Inl (HttpError st)))
      else after [WaitForGlobal429, Fetch userIds,
                  Sleep (retryDelayMs (int (consecutiveFailures + 1)))]
             (checkMultipleUsers_loop (consecutiveFailures + 1) userIds rs))"

definition checkMultipleUsers ::
  "int list \<Rightarrow> response list \<Rightarrow> event list \<times> (error + statuses) option" where
  "checkMultipleUsers userIds rs = checkMultipleUsers_loop 0 userIds rs"



definition rate_limited :: "response \<Rightarrow> bool" where
  "rate_limited r = (case r of FetchRejected _ \<Rightarrow> False | Response st _ _ \<Rightarrow> st = 429)"

subsection \<open>The batch processor\<close>

definition BATCH_SIZE :: nat where
  "BATCH_SIZE = 50"

text \<open>
  \<^verbatim>\<open>for (let i = 0; i < ids.length; i += BATCH_SIZE)
    batches.push(ids.slice(i, i + BATCH_SIZE));\<close>
\<close>

function batches_from :: "nat \<Rightarrow> int list \<Rightarrow> int list list" where
  "batches_from i ids =
     (if i < length ids
      then take BATCH_SIZE (drop i ids) # batches_from (i + BATCH_SIZE) ids
      else [])"
  by pat_completeness auto
termination
  by (relation "measure (\<lambda>(i, ids). length ids - i)") (auto simp: BATCH_SIZE_def)

declare batches_from.simps [simp del]

text \<open>
  The batches run as concurrent tasks. What a task returns depends only on what its own
  requests receive, so the network is given per batch: \<open>net i b\<close> lists what the
  requests of batch number \<open>i\<close>, with ids \<open>b\<close>, receive. The stagger
  (\<^verbatim>\<open>sleep(START_DELAY_MS)\<close>) and the wait for the rate gate only delay a
  launch and are left out.

  \<^verbatim>\<open>checkMultipleUsers(batch).then((data) => Object.assign(userStatuses, data))
  .catch((err) => {})\<close>: a task settles once its call does, and never rejects. Its
  value here is the data it assigned, if any.
\<close>

type_synonym network = "nat \<Rightarrow> int list \<Rightarrow> response list"

definition task :: "(error + statuses) option \<Rightarrow> (error + statuses option) option" where
  "task outcome =
     (case outcome of
        None \<Rightarrow> None
      | Some (Inr d) \<Rightarrow> Some (Inr (Some d))
      | Some (Inl err) \<Rightarrow> Some (Inr None))"

text \<open>
  \<^verbatim>\<open>Promise.all\<close>: rejects when a task has rejected, is pending while one is
  pending, and resolves otherwise.
\<close>

definition Promise_all :: "(error + 'a) option list \<Rightarrow> (error + 'a list) option" where
  "Promise_all ps =
     (case List.map_filter (\<lambda>p. case p of Some (Inl e) \<Rightarrow> Some e | _ \<Rightarrow> None) ps of
        e # _ \<Rightarrow> Some (Inl e)
      | [] \<Rightarrow>
          (if None \<in> set ps then None
           else Some (Inr (List.map_filter (\<lambda>p. case p of Some (Inr v) \<Rightarrow> Some v | _ \<Rightarrow> None) ps))))"

text \<open>
  \<^verbatim>\<open>Object.assign(userStatuses, data)\<close> runs when a task's call returns, so the
  tasks assign in the order they complete: \<open>completion\<close> lists the batch numbers in
  that order.
\<close>

definition assign :: "(error + statuses) option list \<Rightarrow> nat \<Rightarrow> statuses \<Rightarrow> statuses" where
  "assign outcomes i userStatuses =
     (if i < length outcomes
      then (case outcomes ! i of Some (Inr d) \<Rightarrow> userStatuses ++ d | _ \<Rightarrow> userStatuses)
      else userStatuses)"

definition completion_order :: "nat \<Rightarrow> nat list \<Rightarrow> bool" where
  "completion_order n completion = (distinct completion \<and> set completion = set [0..<n])"

text \<open>
  Line 227 of the client, \<^verbatim>\<open>checkMultipleUsers(batches[i]!)\<close>, for every batch in
  the order of launch: what each call does (its events) and how it ends.
\<close>

definition outcomes_of ::
  "network \<Rightarrow> int list list \<Rightarrow> (event list \<times> (error + statuses) option) list" where
  "outcomes_of net batches =
     map (\<lambda>(i, b). checkMultipleUsers b (net i b)) (enumerate 0 batches)"

text \<open>
  The data of the batches that succeeded, in the order of completion, and their merge:
  a later entry replaces an earlier one with the same key.
\<close>

definition successful_data :: "(error + statuses) option list \<Rightarrow> nat list \<Rightarrow> statuses list" where
  "successful_data outcomes completion =
     List.map_filter (\<lambda>i. case outcomes ! i of Some (Inr d) \<Rightarrow> Some d | _ \<Rightarrow> None) completion"

definition merge_all :: "statuses list \<Rightarrow> statuses" where
  "merge_all ds = foldl (++) Map.empty ds"

text \<open>
  \<^verbatim>\<open>checkLotsOfUsers\<close> gives, like \<^verbatim>\<open>checkMultipleUsers\<close>, what it does and
  how it ends: the events of each call of \<^verbatim>\<open>checkMultipleUsers\<close> it makes, and
  the record it resolves with.
\<close>

definition checkLotsOfUsers ::
  "nat list \<Rightarrow> network \<Rightarrow> int list \<Rightarrow> event list list \<times> (error + statuses) option" where
  "checkLotsOfUsers completion net ids =
     (let batches = batches_from 0 ids;
          outcomes = outcomes_of net batches;
          runningTasks = map (\<lambda>out. task (snd out)) outcomes
      in (map fst outcomes,
          case Promise_all runningTasks of
            None \<Rightarrow> None
          | Some (Inl e) \<Rightarrow> Some (Inl e)
          | Some (Inr _) \<Rightarrow>
              Some (Inr (fold (assign (map snd outcomes)) completion Map.empty))))"

text \<open>
  The identifiers a call of \<^verbatim>\<open>checkMultipleUsers\<close> was made for, read off its
  events: those of its first request.
\<close>

fun userIds_of :: "event list \<Rightarrow> int list" where
  "userIds_of [] = []"
| "userIds_of (Fetch ids # evs) = ids"
| "userIds_of (ev # evs) = userIds_of evs"

section \<open>The friends stream\<close>

record FriendResponse =
  PageItems :: "int list"
  NextCursor :: "string option"

text \<open>
  What one \<^verbatim>\<open>fetch\<close> of a friends page gives: a rejection, or a response with
  its status and its body as \<^verbatim>\<open>resp.json()\<close> reads it (\<open>None\<close> when the body
  is not JSON and \<^verbatim>\<open>json()\<close> rejects). The body is read only when the status is
  ok. Of a page item only its \<^verbatim>\<open>id\<close> is kept.
\<close>

datatype friends_reply =
    FriendsRejected string
  | FriendsResponse nat "FriendResponse option"

text \<open>
  \<^verbatim>\<open>fetchFriendsPage\<close>: \<^verbatim>\<open>for (let attempt = 0; ; attempt++)\<close>, run against
  the list of what its requests receive. A call gives the waits it made, its result
  (\<open>None\<close> when the list ends before the loop does) and what is left of the list, for
  the pages fetched next.
\<close>

record page_fetch =
  waits :: "rat list"
  fetched :: "(error + FriendResponse) option"
  unread :: "friends_reply list"

definition waited :: "rat \<Rightarrow> page_fetch \<Rightarrow> page_fetch" where
  "waited ms r = r\<lparr>waits := ms # waits r\<rparr>"

fun fetchFriendsPage :: "nat \<Rightarrow> friends_reply list \<Rightarrow> page_fetch" where
  "fetchFriendsPage attempt [] = \<lparr>waits = [], fetched = None, unread = []\<rparr>"
| "fetchFriendsPage attempt (FriendsRejected msg # rs) =
     (if attempt + 1 \<ge> MAX_HTTP_RETRIES
      then \<lparr>waits = [], fetched = Some (Inl (NetworkError msg)), unread = rs\<rparr>
      else waited (backoffMs (int (attempt + 1))) (fetchFriendsPage (attempt + 1) rs))"
| "fetchFriendsPage attempt (FriendsResponse st bd # rs) =
     (if response_ok st
      then (case bd of
              None \<Rightarrow> \<lparr>waits = [], fetched = Some (Inl JsonError), unread = rs\<rparr>
            | Some page \<Rightarrow> \<lparr>waits = [], fetched = Some (Inr page), unread = rs\<rparr>)
      else if attempt + 1 \<ge> MAX_HTTP_RETRIES
      then \<lparr>waits = [], fetched = Some (Inl (HttpError st)), unread = rs\<rparr>
      else waited (backoffMs (int (attempt + 1))) (fetchFriendsPage (attempt + 1) rs))"

text \<open>How a stream ends: exhausted, with an error, or never (a request unanswered).\<close>

datatype stream_end = Done | Threw error | Stalled





section \<open>The pipeline\<close>

text \<open>One line of a source's \<^verbatim>\<open>rotector\<close> file (without run id and time stamp).\<close>

record sink_record =
  source_label :: string
  user_id :: int
  user_flagType :: int
  flagLabel :: string
  user_status :: UserStatus

text \<open>
  How the promise of an asynchronous call ends: it resolves, it rejects with an error,
  or it stays pending for ever.
\<close>

datatype promise = Resolved | Rejected error | Pending

text \<open>
  An entry of the log of lookups: the identifiers a call of \<^verbatim>\<open>checkMultipleUsers\<close>
  was made for, and the run cache as it was when the call was made.
\<close>

record lookup =
  batch :: "int list"
  cache_then :: statuses

text \<open>
  The state of a run. \<open>statusCache\<close> is the module's map and lives for the whole
  run; the fields from \<open>seenIds\<close> on are the locals of one \<^verbatim>\<open>processEntries\<close>
  call, \<open>rotectorWriter\<close> being the lines appended to the source's file and
  \<open>warnings\<close> the ids of the \<^verbatim>\<open>missing Rotector data\<close> warnings. Two fields
  observe the run and are not in the source: \<open>lookups\<close> logs the calls of
  \<^verbatim>\<open>checkMultipleUsers\<close> that the calls of \<^verbatim>\<open>checkLotsOfUsers\<close> have made
  so far, \<open>calls\<close> counts the calls of \<^verbatim>\<open>checkLotsOfUsers\<close>.
\<close>

record run_state =
  statusCache :: statuses
  lookups :: "lookup list"
  calls :: nat
  seenIds :: "int set"
  pendingLookup :: "int list"
  flagBreakdown :: "string \<rightharpoonup> nat"
  totalCollected :: nat
  uniqueUsers :: nat
  newlyChecked :: nat
  unsafeMatches :: nat
  rotectorWriter :: "sink_record list"
  warnings :: "int list"

text \<open>
  The remote service over a run: for the \<open>k\<close>-th call of \<^verbatim>\<open>checkLotsOfUsers\<close>,
  the order in which its tasks complete and what their requests receive.
\<close>

type_synonym service = "nat \<Rightarrow> nat list \<times> network"

definition LOOKUP_BATCH_SIZE :: nat where
  "LOOKUP_BATCH_SIZE = 50"

text \<open>The line \<^verbatim>\<open>writeStatus\<close> appends for a status.\<close>

definition sink_line :: "string \<Rightarrow> UserStatus \<Rightarrow> sink_record" where
  "sink_line label st =
     \<lparr>source_label = label, user_id = status_id st, user_flagType = flagType st,
      flagLabel = flagTypeToString (flagType st), user_status = st\<rparr>"

definition writeStatus :: "string \<Rightarrow> UserStatus \<Rightarrow> run_state \<Rightarrow> run_state" where
  "writeStatus label st s =
     (let lbl = flagTypeToString (flagType st) in
      s\<lparr>flagBreakdown :=
          (flagBreakdown s)(lbl \<mapsto> (case flagBreakdown s lbl of None \<Rightarrow> 0 | Some c \<Rightarrow> c) + 1),
        unsafeMatches := (if flagType st \<noteq> 0 then unsafeMatches s + 1 else unsafeMatches s),
        rotectorWriter := rotectorWriter s @ [sink_line label st]\<rparr>)"

text \<open>\<^verbatim>\<open>persistCache\<close>: every entry of the results is set in the cache.\<close>

definition persistCache :: "statuses \<Rightarrow> run_state \<Rightarrow> run_state" where
  "persistCache results s = s\<lparr>statusCache := statusCache s ++ results\<rparr>"

text \<open>The body of the \<^verbatim>\<open>for (const id of chunk)\<close> loop of \<^verbatim>\<open>flushLookup\<close>.\<close>

definition record_lookup :: "string \<Rightarrow> statuses \<Rightarrow> int \<Rightarrow> run_state \<Rightarrow> run_state" where
  "record_lookup label lookupResults i s =
     (case lookupResults i of
        Some st \<Rightarrow> writeStatus label st s
      | None \<Rightarrow> s\<lparr>warnings := warnings s @ [i]\<rparr>)"

text \<open>
  \<^verbatim>\<open>flushLookup\<close>. The buffer is emptied (\<^verbatim>\<open>pendingLookup.splice(0)\<close>) before
  \<^verbatim>\<open>checkLotsOfUsers(chunk)\<close> is awaited. The calls of \<^verbatim>\<open>checkMultipleUsers\<close>
  that this call of \<^verbatim>\<open>checkLotsOfUsers\<close> makes go to the log, each with the
  identifiers read off its events. The result is the state in which the function
  stops and how it ends; when the lookup stays pending, nothing after the
  \<^verbatim>\<open>await\<close> happens.
\<close>

definition flushLookup :: "service \<Rightarrow> string \<Rightarrow> run_state \<Rightarrow> run_state \<times> promise" where
  "flushLookup svc label s =
     (if pendingLookup s = [] then (s, Resolved)
      else
        (let chunk = pendingLookup s;
             lookup = checkLotsOfUsers (fst (svc (calls s))) (snd (svc (calls s))) chunk;
             s1 = s\<lparr>pendingLookup := [], calls := calls s + 1,
                    lookups := lookups s @
                      map (\<lambda>evs. \<lparr>batch = userIds_of evs, cache_then = statusCache s\<rparr>)
                        (fst lookup)\<rparr>
         in case snd lookup of
              None \<Rightarrow> (s1, Pending)
            | Some (Inl e) \<Rightarrow> (s1, Rejected e)
            | Some (Inr lookupResults) \<Rightarrow>
                (fold (record_lookup label lookupResults) chunk
                   ((persistCache lookupResults s1)
                      \<lparr>newlyChecked := newlyChecked s1 + length chunk\<rparr>),
                 Resolved)))"

text \<open>The body of the \<^verbatim>\<open>for await (const entry of entryStream)\<close> loop.\<close>

definition process_entry ::
  "service \<Rightarrow> string \<Rightarrow> int \<Rightarrow> run_state \<Rightarrow> run_state \<times> promise" where
  "process_entry svc label userId s =
     (let s1 = s\<lparr>totalCollected := totalCollected s + 1\<rparr> in
      if userId \<in> seenIds s1 then (s1, Resolved)
      else
        (let s2 = s1\<lparr>seenIds := insert userId (seenIds s1), uniqueUsers := uniqueUsers s1 + 1\<rparr>
         in case statusCache s2 userId of
              Some cached \<Rightarrow> (writeStatus label cached s2, Resolved)
            | None \<Rightarrow>
                (let s3 = s2\<lparr>pendingLookup := pendingLookup s2 @ [userId]\<rparr> in
                 if length (pendingLookup s3) \<ge> LOOKUP_BATCH_SIZE
                 then flushLookup svc label s3
                 else (s3, Resolved))))"

text \<open>
  The loop over the entries a stream delivers: it goes on to the next entry when the
  body has run to its end, and stops where the body throws or never returns.
\<close>

fun process_stream ::
  "service \<Rightarrow> string \<Rightarrow> int list \<Rightarrow> run_state \<Rightarrow> run_state \<times> promise" where
  "process_stream svc label [] s = (s, Resolved)"
| "process_stream svc label (userId # rest) s =
     (case process_entry svc label userId s of
        (s', Resolved) \<Rightarrow> process_stream svc label rest s'
      | (s', p) \<Rightarrow> (s', p))"

text \<open>The locals of \<^verbatim>\<open>processEntries\<close> as it declares them.\<close>

definition enter_source :: "run_state \<Rightarrow> run_state" where
  "enter_source g =
     g\<lparr>seenIds := {}, pendingLookup := [], flagBreakdown := Map.empty,
       totalCollected := 0, uniqueUsers := 0, newlyChecked := 0, unsafeMatches := 0,
       rotectorWriter := [], warnings := []\<rparr>"

text \<open>
  \<^verbatim>\<open>processEntries\<close> on a stream given by the user ids of the entries it delivers
  (\<^verbatim>\<open>extractUserId(entry)\<close>) and by how it ends. An error thrown by the stream
  leaves the loop and the function; the last \<^verbatim>\<open>flushLookup\<close> runs only when the
  stream is exhausted. \<^verbatim>\<open>onEntryCollected\<close>, the logger and the status line write
  elsewhere and are left out.
\<close>

definition processEntries ::
  "service \<Rightarrow> string \<Rightarrow> int list \<times> stream_end \<Rightarrow> run_state \<Rightarrow> run_state \<times> promise" where
  "processEntries svc label entryStream g =
     (case process_stream svc label (fst entryStream) (enter_source g) of
        (s, Resolved) \<Rightarrow>
          (case snd entryStream of
             Done \<Rightarrow> flushLookup svc label s
           | Threw e \<Rightarrow> (s, Rejected e)
           | Stalled \<Rightarrow> (s, Pending))
      | (s, p) \<Rightarrow> (s, p))"


text \<open>
  The loops of \<^verbatim>\<open>main\<close> over the sources, one after the other: the next source is
  entered when the one before has been processed to its end, and an error ends the run
  (\<^verbatim>\<open>process.exit(1)\<close>). The result lists the state in which each source that was
  entered stopped, and tells how the run ends.
\<close>

fun processSources ::
  "service \<Rightarrow> (string \<times> int list \<times> stream_end) list \<Rightarrow> run_state \<Rightarrow>
   run_state list \<times> promise" where
  "processSources svc [] g = ([], Resolved)"
| "processSources svc ((label, entryStream) # rest) g =
     (case processEntries svc label entryStream g of
        (s, Resolved) \<Rightarrow> (s # fst (processSources svc rest s), snd (processSources svc rest s))
      | (s, p) \<Rightarrow> ([s], p))"

text \<open>The state a run starts in: \<^verbatim>\<open>statusCache = new Map()\<close>.\<close>

definition start_of_run :: run_state where
  "start_of_run =
     \<lparr>statusCache = Map.empty, lookups = [], calls = 0, seenIds = {}, pendingLookup = [],
      flagBreakdown = Map.empty, totalCollected = 0, uniqueUsers = 0, newlyChecked = 0,
      unsafeMatches = 0, rotectorWriter = [], warnings = []\<rparr>"

text \<open>The identifiers handed to the client between a state \<open>g\<close> and a later state \<open>s\<close>.\<close>

definition handed_since :: "run_state \<Rightarrow> run_state \<Rightarrow> int list" where
  "handed_since g s = concat (map batch (drop (length (lookups g)) (lookups s)))"

section \<open>Invariants of the loop over a stream\<close>

text \<open>
  \<open>source_inv g seen s\<close> relates the state \<open>g\<close> in which a source is entered, the
  entries \<open>seen\<close> delivered so far and the state \<open>s\<close> reached. The calls logged
  since the source was entered are for full batches, and none of their identifiers had
  a cache entry when its call was made. The batches and the buffer hold different
  identifiers, all of them delivered by the stream, none of them cached when the source
  was entered, and none of the buffer cached now. Every identifier delivered is in a
  batch, in the buffer or in the cache.
\<close>

definition source_inv :: "run_state \<Rightarrow> int list \<Rightarrow> run_state \<Rightarrow> bool" where
  "source_inv g seen s \<longleftrightarrow>
     seenIds s = set seen \<and>
     dom (statusCache g) \<subseteq> dom (statusCache s) \<and>
     length (pendingLookup s) < LOOKUP_BATCH_SIZE \<and>
     set (pendingLookup s) \<inter> dom (statusCache s) = {} \<and>
     (\<exists>L. lookups s = lookups g @ L \<and>
          (\<forall>l \<in> set L. length (batch l) = LOOKUP_BATCH_SIZE \<and>
             set (batch l) \<inter> dom (cache_then l) = {} \<and>
             dom (statusCache g) \<subseteq> dom (cache_then l)) \<and>
          distinct (concat (map batch L) @ pendingLookup s) \<and>
          set (concat (map batch L) @ pendingLookup s) \<subseteq> set seen - dom (statusCache g) \<and>
          set seen \<subseteq> set (concat (map batch L)) \<union> set (pendingLookup s) \<union> dom (statusCache s))"

text \<open>
  A service that answers only what it is asked: the data of a response holds entries for
  ids of the request only.
\<close>

definition answers_requested :: "service \<Rightarrow> bool" where
  "answers_requested svc \<longleftrightarrow>
     (\<forall>k i b st ra bd d.
        Response st ra (Some bd) \<in> set (snd (svc k) i b) \<and> data bd = Some d \<longrightarrow> dom d \<subseteq> set b)"

text \<open>
  With such a service, \<open>requested_inv g label s\<close> holds between the state \<open>g\<close> in
  which a source is entered and a state \<open>s\<close> reached in it: the cache has changed
  only at identifiers handed to the client since, and for every identifier delivered
  that has a cache entry, the line of that entry is in the source's file.
\<close>

definition requested_inv :: "run_state \<Rightarrow> string \<Rightarrow> run_state \<Rightarrow> bool" where
  "requested_inv g label s \<longleftrightarrow>
     (\<forall>x. x \<notin> set (handed_since g s) \<longrightarrow> statusCache s x = statusCache g x) \<and>
     (\<forall>x \<in> seenIds s. \<forall>st. statusCache s x = Some st \<longrightarrow>
        sink_line label st \<in> set (rotectorWriter s))"

text \<open>
  A service that answers every lookup of a chunk of at most 50 identifiers with an entry
  for each of them.
\<close>

definition answers_all :: "service \<Rightarrow> bool" where
  "answers_all svc \<longleftrightarrow>
     (\<forall>k chunk. chunk \<noteq> [] \<and> length chunk \<le> LOOKUP_BATCH_SIZE \<longrightarrow>
        (\<exists>m. snd (checkLotsOfUsers (fst (svc k)) (snd (svc k)) chunk) = Some (Inr m) \<and>
             set chunk \<subseteq> dom m))"

text \<open>A service whose every call of \<^verbatim>\<open>checkMultipleUsers\<close> ends.\<close>

definition always_settles :: "service \<Rightarrow> bool" where
  "always_settles svc \<longleftrightarrow> (\<forall>k i b. snd (checkMultipleUsers b (snd (svc k) i b)) \<noteq> None)"

text \<open>
  \<open>fresh_inv g seen s\<close>: when no entry was seen or cached before, the batches looked up
  and the buffer are the entries delivered so far, in their order.
\<close>

definition fresh_inv :: "run_state \<Rightarrow> int list \<Rightarrow> run_state \<Rightarrow> bool" where
  "fresh_inv g seen s \<longleftrightarrow>
     seenIds s = set seen \<and>
     dom (statusCache s) \<subseteq> dom (statusCache g) \<union> set seen \<and>
     length (pendingLookup s) < LOOKUP_BATCH_SIZE \<and>
     (\<exists>L. lookups s = lookups g @ L \<and>
          (\<forall>l \<in> set L. length (batch l) = LOOKUP_BATCH_SIZE) \<and>
          concat (map batch L) @ pendingLookup s = seen)"

section \<open>Concrete inputs\<close>

text \<open>A result with flag level 0 for a user.\<close>

definition safe_status :: "int \<Rightarrow> UserStatus" where
  "safe_status i =
     \<lparr>status_id = i, flagType = 0, confidence = None, reasons = None, reviewer = None,
      engineVersion = None, versionCompatibility = None, lastUpdated = None\<rparr>"

text \<open>A response with status 200 and a success envelope around the data.\<close>

definition ok_response :: "statuses \<Rightarrow> response" where
  "ok_response d = Response 200 Absent (Some \<lparr>success = True, data = Some d, error = None\<rparr>)"

text \<open>
  A service that knows no user: every request is answered at once, with a success
  envelope and no entry (users that are not in the database do not appear in the
  response).
\<close>

definition silent_service :: service where
  "silent_service k = ([0], \<lambda>i b. [ok_response Map.empty])"

text \<open>
  A service that knows every user: every request is answered at once with a flag level
  0 for each id asked.
\<close>

definition knowing_service :: service where
  "knowing_service k =
     ([0], \<lambda>i b. [ok_response (\<lambda>u. if u \<in> set b then Some (safe_status u) else None)])"


text \<open>
  A service whose first call gets a success envelope with the error flag, and that
  knows every user afterwards.
\<close>

definition failure_envelope :: BatchApiResponse where
  "failure_envelope = \<lparr>success = False, data = None, error = Some ''Internal server error''\<rparr>"

definition recovering_service :: service where
  "recovering_service k =
     ([0], \<lambda>i b.
        if k = 0 then [Response 200 Absent (Some failure_envelope)]
        else [ok_response (\<lambda>u. if u \<in> set b then Some (safe_status u) else None)])"



text \<open>
  Fifty-one ids, and a network whose first batch finds the service down while the second
  is answered.
\<close>

definition ids51 :: "int list" where
  "ids51 = map int [0..<51]"

definition net_first_fails :: network where
  "net_first_fails i b =
     (if i = 0 then replicate 6 (FetchRejected ''down'')
      else [ok_response [50 \<mapsto> safe_status 50]])"


text \<open>A result with a flag level outside 0 to 6.\<close>

definition status7 :: UserStatus where
  "status7 =
     \<lparr>status_id = 42, flagType = 7, confidence = None, reasons = None, reviewer = None,
      engineVersion = None, versionCompatibility = None, lastUpdated = None\<rparr>"


section \<open>The batches of a call\<close>

lemma BATCH_SIZE_pos: "0 < BATCH_SIZE"
  by (simp add: BATCH_SIZE_def)

lemma concat_batches_from: "concat (batches_from i ids) = drop i ids"
proof (induction i ids rule: batches_from.induct)
  case (1 i ids)
  show ?case
  proof (cases "i < length ids")
    case True
    have "concat (batches_from i ids) =
        take BATCH_SIZE (drop i ids) @ drop (i + BATCH_SIZE) ids"
      using True 1 by (simp add: batches_from.simps [of i ids])
    also have "\<dots> = drop i ids"
      by (metis add.commute append_take_drop_id drop_drop)
    finally show ?thesis .
  next
    case False
    then show ?thesis
      by (simp add: batches_from.simps [of i ids])
  qed
qed

lemma ceil_step:
  assumes "0 < (B::nat)" "i < n"
  shows "Suc ((n - (i + B) + B - 1) div B) = (n - i + B - 1) div B"
proof (cases "i + B \<le> n")
  case True
  then have e: "n - i + B - 1 = (n - (i + B) + B - 1) + B"
    using assms by simp
  have "(m + B) div B = Suc (m div B)" for m
    using assms by (simp add: div_add_self2)
  then show ?thesis
    by (simp only: e)
next
  case False
  then have z: "n - (i + B) = 0"
    by simp
  have "B * 1 \<le> n - i + B - 1" "n - i + B - 1 < B * Suc 1"
    using False assms by simp_all
  then have "(n - i + B - 1) div B = 1"
    by (rule div_nat_eqI)
  then show ?thesis
    using z assms by simp
qed

lemma mod_step:
  assumes "i + B < (n::nat)"
  shows "(n - (i + B)) mod B = (n - i) mod B"
proof -
  have "n - i = (n - (i + B)) + B"
    using assms by simp
  then show ?thesis
    by (metis mod_add_self2)
qed

lemma last_small:
  assumes "0 < (k::nat)" "k \<le> B"
  shows "(if k mod B = 0 then B else k mod B) = k"
proof (cases "k = B")
  case True
  then show ?thesis by simp
next
  case False
  then have "k < B" using assms by simp
  then show ?thesis using assms by simp
qed

lemma length_batches_from:
  "length (batches_from i ids) = (length ids - i + BATCH_SIZE - 1) div BATCH_SIZE"
proof (induction i ids rule: batches_from.induct)
  case (1 i ids)
  show ?case
  proof (cases "i < length ids")
    case True
    then show ?thesis
      using 1 ceil_step [OF BATCH_SIZE_pos True]
      by (simp add: batches_from.simps [of i ids])
  next
    case False
    then show ?thesis
      using BATCH_SIZE_pos by (simp add: batches_from.simps [of i ids])
  qed
qed

lemma batches_from_lengths:
  "b \<in> set (batches_from i ids) \<Longrightarrow> 0 < length b \<and> length b \<le> BATCH_SIZE"
proof (induction i ids rule: batches_from.induct)
  case (1 i ids)
  show ?case
  proof (cases "i < length ids")
    case True
    then show ?thesis
      using 1 BATCH_SIZE_pos by (auto simp: batches_from.simps [of i ids])
  next
    case False
    then show ?thesis
      using 1 by (simp add: batches_from.simps [of i ids])
  qed
qed

lemma butlast_batches_from:
  "b \<in> set (butlast (batches_from i ids)) \<Longrightarrow> length b = BATCH_SIZE"
proof (induction i ids rule: batches_from.induct)
  case (1 i ids)
  show ?case
  proof (cases "i < length ids")
    case True
    note lt = True
    show ?thesis
    proof (cases "i + BATCH_SIZE < length ids")
      case True
      then have ne: "batches_from (i + BATCH_SIZE) ids \<noteq> []"
        by (simp add: batches_from.simps [of "i + BATCH_SIZE" ids])
      from 1(2) lt ne have "b = take BATCH_SIZE (drop i ids) \<or>
          b \<in> set (butlast (batches_from (i + BATCH_SIZE) ids))"
        by (simp add: batches_from.simps [of i ids])
      then show ?thesis
        using 1(1) lt True by auto
    next
      case False
      then have "batches_from (i + BATCH_SIZE) ids = []"
        by (simp add: batches_from.simps [of "i + BATCH_SIZE" ids])
      with 1(2) lt show ?thesis
        by (simp add: batches_from.simps [of i ids])
    qed
  next
    case False
    then show ?thesis
      using 1 by (simp add: batches_from.simps [of i ids])
  qed
qed

lemma last_batches_from:
  "i < length ids \<Longrightarrow>
   length (last (batches_from i ids)) =
     (if (length ids - i) mod BATCH_SIZE = 0 then BATCH_SIZE
      else (length ids - i) mod BATCH_SIZE)"
proof (induction i ids rule: batches_from.induct)
  case (1 i ids)
  note lt = 1(2)
  show ?case
  proof (cases "i + BATCH_SIZE < length ids")
    case True
    then have ne: "batches_from (i + BATCH_SIZE) ids \<noteq> []"
      by (simp add: batches_from.simps [of "i + BATCH_SIZE" ids])
    have L: "last (batches_from i ids) = last (batches_from (i + BATCH_SIZE) ids)"
      using lt ne by (simp add: batches_from.simps [of i ids])
    show ?thesis
      unfolding L using 1(1) [OF lt True] by (simp only: mod_step [OF True])
  next
    case False
    then have e: "batches_from (i + BATCH_SIZE) ids = []"
      by (simp add: batches_from.simps [of "i + BATCH_SIZE" ids])
    have k: "0 < length ids - i" "length ids - i \<le> BATCH_SIZE"
      using False lt by simp_all
    have L: "last (batches_from i ids) = take BATCH_SIZE (drop i ids)"
      using lt e by (simp add: batches_from.simps [of i ids])
    have len: "length (take BATCH_SIZE (drop i ids)) = length ids - i"
      using k by simp
    show ?thesis
      unfolding L len by (simp only: last_small [OF k])
  qed
qed

lemma batches_from_beyond: "length ids \<le> i \<Longrightarrow> batches_from i ids = []"
  by (simp add: batches_from.simps [of i ids])

lemma batches_from_single:
  "ids \<noteq> [] \<Longrightarrow> length ids \<le> BATCH_SIZE \<Longrightarrow> batches_from 0 ids = [ids]"
  by (simp add: batches_from.simps [of 0 ids] batches_from_beyond)

lemma batches_from_shift: "batches_from (length p + i) (p @ ids) = batches_from i ids"
proof (induction i ids rule: batches_from.induct)
  case (1 i ids)
  show ?case
  proof (cases "i < length ids")
    case True
    have "batches_from (length p + (i + BATCH_SIZE)) (p @ ids) = batches_from (i + BATCH_SIZE) ids"
      using 1 True by simp
    then show ?thesis
      using True
      by (simp add: batches_from.simps [of i ids] batches_from.simps [of "length p + i" "p @ ids"]
          add.assoc)
  next
    case False
    then show ?thesis
      by (simp add: batches_from_beyond)
  qed
qed

lemma batches_from_full:
  assumes "length b = BATCH_SIZE"
  shows "batches_from 0 (b @ ids) = b # batches_from 0 ids"
proof -
  have "batches_from (0 + BATCH_SIZE) (b @ ids) = batches_from 0 ids"
    using batches_from_shift [of b 0 ids] assms by simp
  then show ?thesis
    using assms BATCH_SIZE_pos by (simp add: batches_from.simps [of 0 "b @ ids"])
qed

lemma batches_from_chunks:
  "\<forall>b \<in> set L. length b = BATCH_SIZE \<Longrightarrow> length p < BATCH_SIZE \<Longrightarrow>
   batches_from 0 (concat L @ p) = L @ (if p = [] then [] else [p])"
proof (induction L)
  case Nil
  then show ?case
    by (simp add: batches_from_single batches_from_beyond)
next
  case (Cons b L)
  then show ?case
    by (simp add: batches_from_full)
qed

section \<open>The request loop\<close>

lemma loop_429_step:
  "checkMultipleUsers_loop cf ids (Response 429 ra bd # rs) =
   after [WaitForGlobal429, Fetch ids, ActivateGlobal429 (cooldownMs ra)]
     (checkMultipleUsers_loop 0 ids rs)"
  by (simp add: response_ok_def)

lemma loop_429_only:
  "\<forall>r \<in> set rs. rate_limited r \<Longrightarrow>
   checkMultipleUsers_loop cf ids rs =
     (concat (map (\<lambda>r. [WaitForGlobal429, Fetch ids, ActivateGlobal429 (cooldownMs (retryAfter r))]) rs)
        @ [WaitForGlobal429, Fetch ids], None)"
proof (induction rs arbitrary: cf)
  case Nil
  then show ?case by simp
next
  case (Cons r rs)
  then obtain ra bd where r: "r = Response 429 ra bd"
    by (cases r) (auto simp: rate_limited_def)
  show ?case
    using Cons by (simp add: r response_ok_def after_def)
qed

lemma cooldownMs_cases:
  "cooldownMs h =
     (case h of Absent \<Rightarrow> 12500 | NotNumeric \<Rightarrow> 12500
      | Numeric r \<Rightarrow> (if r = 0 then 12500 else r * 1000 + 2500))"
  by (simp add: cooldownMs_def js_or_def Number_header_def split: retry_after_header.split)

lemma loop_returns_data:
  "snd (checkMultipleUsers_loop cf ids rs) = Some (Inr d) \<Longrightarrow>
   \<exists>st ra bd. Response st ra (Some bd) \<in> set rs \<and> response_ok st \<and> success bd \<and> data bd = Some d"
proof (induction cf ids rs rule: checkMultipleUsers_loop.induct)
  case (1 cf ids)
  then show ?case by simp
next
  case (2 cf ids msg rs)
  then show ?case
    by (auto simp: after_def split: if_splits)
next
  case (3 cf ids st ra bd rs)
  then show ?case
    by (auto simp: after_def read_result_def split: if_splits option.splits)
qed






lemma loop_rate_limited_forever:
  "snd (checkMultipleUsers_loop cf ids (replicate n (Response 429 ra bd))) = None"
  using loop_429_only [of "replicate n (Response 429 ra bd)" cf ids]
  by (simp add: rate_limited_def)


text \<open>Every request of a call carries the identifiers the call was made for.\<close>

lemma userIds_of_loop: "userIds_of (fst (checkMultipleUsers_loop cf b rs)) = b"
  by (induction cf b rs rule: checkMultipleUsers_loop.induct) (simp_all add: after_def)

lemma fetches_of_loop: "Fetch ids \<in> set (fst (checkMultipleUsers_loop cf b rs)) \<Longrightarrow> ids = b"
  by (induction cf b rs rule: checkMultipleUsers_loop.induct)
    (auto simp: after_def split: if_splits)

section \<open>The batch processor never rejects\<close>

lemma task_simps:
  "task None = None"
  "task (Some (Inl e)) = Some (Inr None)"
  "task (Some (Inr d)) = Some (Inr (Some d))"
  by (simp_all add: task_def)

lemma task_cases:
  "(task out = None \<and> out = None) \<or> (\<exists>v. task out = Some (Inr v) \<and> out \<noteq> None)"
proof (cases out)
  case None
  then show ?thesis by (simp add: task_simps)
next
  case (Some r)
  then show ?thesis by (cases r) (simp_all add: task_simps)
qed

lemma rejections_of_tasks:
  "List.map_filter (\<lambda>p. case p of Some (Inl e) \<Rightarrow> Some e | _ \<Rightarrow> None) (map task outs) = []"
proof (induction outs)
  case Nil
  then show ?case by simp
next
  case (Cons out outs)
  then show ?case
    using task_cases [of out] by auto
qed

lemma pending_tasks: "None \<in> set (map task outs) \<longleftrightarrow> None \<in> set outs"
proof (induction outs)
  case Nil
  then show ?case by simp
next
  case (Cons out outs)
  then show ?case
    using task_cases [of out] by auto
qed

lemma Promise_all_tasks:
  "Promise_all (map task outs) = None \<longleftrightarrow> None \<in> set outs"
  "Promise_all (map task outs) \<noteq> Some (Inl e)"
  using pending_tasks [of outs]
  by (simp_all add: Promise_all_def rejections_of_tasks del: set_map)

lemma checkLotsOfUsers_eq:
  "checkLotsOfUsers completion net ids =
     (map fst (outcomes_of net (batches_from 0 ids)),
      if None \<in> set (map snd (outcomes_of net (batches_from 0 ids))) then None
      else Some (Inr (fold (assign (map snd (outcomes_of net (batches_from 0 ids))))
             completion Map.empty)))"
proof -
  let ?outs = "map snd (outcomes_of net (batches_from 0 ids))"
  have tasks: "map (\<lambda>out. task (snd out)) (outcomes_of net (batches_from 0 ids)) = map task ?outs"
    by simp
  show ?thesis
  proof (cases "Promise_all (map task ?outs)")
    case None
    then show ?thesis
      using Promise_all_tasks(1) [of ?outs]
      by (simp add: checkLotsOfUsers_def Let_def tasks del: set_map map_map)
  next
    case (Some r)
    then have "None \<notin> set ?outs"
      using Promise_all_tasks(1) [of ?outs] by simp
    moreover obtain v where "r = Inr v"
      using Some Promise_all_tasks(2) [of ?outs] by (cases r) auto
    ultimately show ?thesis
      using Some by (simp add: checkLotsOfUsers_def Let_def tasks del: set_map map_map)
  qed
qed

lemma checkLotsOfUsers_never_rejects:
  "snd (checkLotsOfUsers completion net ids) \<noteq> Some (Inl e)"
  by (simp add: checkLotsOfUsers_eq)

lemma successful_data_Cons:
  "successful_data outs (i # order) =
     (case outs ! i of Some (Inr d) \<Rightarrow> [d] | _ \<Rightarrow> []) @ successful_data outs order"
  by (simp add: successful_data_def split: option.splits sum.splits)

lemma successful_data_Nil: "successful_data outs [] = []"
  by (simp add: successful_data_def)

lemma fold_assign_merge:
  "\<forall>i \<in> set order. i < length outs \<Longrightarrow>
   fold (assign outs) order m = foldl (++) m (successful_data outs order)"
proof (induction order arbitrary: m)
  case Nil
  then show ?case by (simp add: successful_data_Nil)
next
  case (Cons i order)
  then have i: "i < length outs" and rest: "\<forall>i \<in> set order. i < length outs"
    by simp_all
  show ?case
  proof (cases "outs ! i")
    case None
    then show ?thesis
      using Cons.IH [OF rest] i by (simp add: successful_data_Cons assign_def)
  next
    case (Some r)
    then show ?thesis
      using Cons.IH [OF rest] i by (cases r) (simp_all add: successful_data_Cons assign_def)
  qed
qed

lemma in_successful_data:
  "d \<in> set (successful_data outs order) \<longleftrightarrow> (\<exists>i \<in> set order. outs ! i = Some (Inr d))"
proof (induction order)
  case Nil
  then show ?case by (simp add: successful_data_Nil)
next
  case (Cons i order)
  have head: "d \<in> set (case outs ! i of Some (Inr d) \<Rightarrow> [d] | _ \<Rightarrow> []) \<longleftrightarrow>
      outs ! i = Some (Inr d)"
  proof (cases "outs ! i")
    case None
    then show ?thesis by simp
  next
    case (Some r)
    then show ?thesis by (cases r) auto
  qed
  have "d \<in> set (successful_data outs (i # order)) \<longleftrightarrow>
      outs ! i = Some (Inr d) \<or> d \<in> set (successful_data outs order)"
    unfolding successful_data_Cons set_append Un_iff head ..
  also have "\<dots> \<longleftrightarrow> (\<exists>j \<in> set (i # order). outs ! j = Some (Inr d))"
    unfolding Cons.IH by simp
  finally show ?case .
qed

lemma successful_data_set:
  assumes "completion_order (length outs) completion"
  shows "set (successful_data outs completion) = {d. Some (Inr d) \<in> set outs}"
proof -
  have idx: "set completion = {..<length outs}"
    using assms by (simp add: completion_order_def atLeast0LessThan)
  have "d \<in> set (successful_data outs completion) \<longleftrightarrow> Some (Inr d) \<in> set outs" for d
  proof
    assume "d \<in> set (successful_data outs completion)"
    then obtain i where "i < length outs" "outs ! i = Some (Inr d)"
      unfolding in_successful_data idx by blast
    then show "Some (Inr d) \<in> set outs"
      by (metis nth_mem)
  next
    assume "Some (Inr d) \<in> set outs"
    then obtain i where "i < length outs" "outs ! i = Some (Inr d)"
      unfolding in_set_conv_nth by blast
    then show "d \<in> set (successful_data outs completion)"
      unfolding in_successful_data idx by blast
  qed
  then show ?thesis
    by blast
qed

lemma outcomes_of_length: "length (outcomes_of net bs) = length bs"
  by (simp add: outcomes_of_def)

lemma outcomes_of_nth:
  "i < length bs \<Longrightarrow> outcomes_of net bs ! i = checkMultipleUsers (bs ! i) (net i (bs ! i))"
  by (simp add: outcomes_of_def nth_enumerate_eq)


text \<open>The calls a lookup makes are for the batches of its identifiers, in their order.\<close>

lemma userIds_of_outcomes: "map (\<lambda>out. userIds_of (fst out)) (outcomes_of net bs) = bs"
proof (rule nth_equalityI)
  show "length (map (\<lambda>out. userIds_of (fst out)) (outcomes_of net bs)) = length bs"
    by (simp add: outcomes_of_length)
next
  fix i
  assume "i < length (map (\<lambda>out. userIds_of (fst out)) (outcomes_of net bs))"
  then have i: "i < length bs"
    by (simp add: outcomes_of_length)
  then show "map (\<lambda>out. userIds_of (fst out)) (outcomes_of net bs) ! i = bs ! i"
    by (simp add: outcomes_of_length outcomes_of_nth checkMultipleUsers_def userIds_of_loop)
qed

lemma checkLotsOfUsers_calls:
  "map userIds_of (fst (checkLotsOfUsers completion net ids)) = batches_from 0 ids"
  using userIds_of_outcomes [of net "batches_from 0 ids"]
  by (simp add: checkLotsOfUsers_eq comp_def)

lemma checkLotsOfUsers_logged:
  "map (\<lambda>evs. \<lparr>batch = userIds_of evs, cache_then = c\<rparr>)
     (fst (checkLotsOfUsers completion net ids)) =
   map (\<lambda>b. \<lparr>batch = b, cache_then = c\<rparr>) (batches_from 0 ids)"
proof -
  have "map (\<lambda>evs. \<lparr>batch = userIds_of evs, cache_then = c\<rparr>)
      (fst (checkLotsOfUsers completion net ids)) =
      map (\<lambda>b. \<lparr>batch = b, cache_then = c\<rparr>)
        (map userIds_of (fst (checkLotsOfUsers completion net ids)))"
    by (simp add: comp_def)
  then show ?thesis
    by (simp only: checkLotsOfUsers_calls)
qed


lemma fold_assign_dom:
  "k \<in> dom (fold (assign outs) order m0) \<Longrightarrow>
   k \<in> dom m0 \<or> (\<exists>i d. i < length outs \<and> outs ! i = Some (Inr d) \<and> k \<in> dom d)"
proof (induction order arbitrary: m0)
  case Nil
  then show ?case by simp
next
  case (Cons i order)
  from Cons.IH [of "assign outs i m0"] Cons.prems have
    "k \<in> dom (assign outs i m0) \<or> (\<exists>i d. i < length outs \<and> outs ! i = Some (Inr d) \<and> k \<in> dom d)"
    by simp
  moreover have "k \<in> dom (assign outs i m0) \<Longrightarrow>
      k \<in> dom m0 \<or> (\<exists>d. i < length outs \<and> outs ! i = Some (Inr d) \<and> k \<in> dom d)"
    by (auto simp: assign_def split: if_splits option.splits sum.splits)
  ultimately show ?case
    by blast
qed

lemma batch_subset: "b \<in> set (batches_from 0 ids) \<Longrightarrow> set b \<subseteq> set ids"
proof -
  assume "b \<in> set (batches_from 0 ids)"
  then have "set b \<subseteq> set (concat (batches_from 0 ids))"
    by auto
  then show ?thesis
    by (simp add: concat_batches_from)
qed


lemma answers_requested_dom:
  assumes ar: "answers_requested svc"
    and res: "snd (checkLotsOfUsers (fst (svc k)) (snd (svc k)) chunk) = Some (Inr m)"
  shows "dom m \<subseteq> set chunk"
proof
  fix u
  assume u: "u \<in> dom m"
  let ?bs = "batches_from 0 chunk"
  let ?outs = "map snd (outcomes_of (snd (svc k)) ?bs)"
  have "m = fold (assign ?outs) (fst (svc k)) Map.empty"
    using res by (simp add: checkLotsOfUsers_eq split: if_splits)
  then have "u \<in> dom (fold (assign ?outs) (fst (svc k)) Map.empty)"
    using u by simp
  moreover have "u \<notin> dom (Map.empty :: statuses)"
    by simp
  ultimately obtain i d where
    i: "i < length ?outs" and d: "?outs ! i = Some (Inr d)" and ud: "u \<in> dom d"
    using fold_assign_dom [of u ?outs "fst (svc k)" Map.empty] by blast
  have il: "i < length ?bs"
    using i by (simp add: outcomes_of_length)
  have "snd (checkMultipleUsers_loop 0 (?bs ! i) (snd (svc k) i (?bs ! i))) = Some (Inr d)"
    using d il outcomes_of_nth [OF il, of "snd (svc k)"]
    by (simp add: checkMultipleUsers_def outcomes_of_length)
  from loop_returns_data [OF this] obtain st ra bd where
    "Response st ra (Some bd) \<in> set (snd (svc k) i (?bs ! i))" "data bd = Some d"
    by blast
  then have "dom d \<subseteq> set (?bs ! i)"
    using ar unfolding answers_requested_def by blast
  moreover have "set (?bs ! i) \<subseteq> set chunk"
    using batch_subset [of "?bs ! i" chunk] il by simp
  ultimately show "u \<in> set chunk"
    using ud by blast
qed

section \<open>What a flush does\<close>

lemma writeStatus_frame:
  "statusCache (writeStatus label st s) = statusCache s"
  "lookups (writeStatus label st s) = lookups s"
  "calls (writeStatus label st s) = calls s"
  "seenIds (writeStatus label st s) = seenIds s"
  "pendingLookup (writeStatus label st s) = pendingLookup s"
  "totalCollected (writeStatus label st s) = totalCollected s"
  "uniqueUsers (writeStatus label st s) = uniqueUsers s"
  "newlyChecked (writeStatus label st s) = newlyChecked s"
  "warnings (writeStatus label st s) = warnings s"
  "rotectorWriter (writeStatus label st s) = rotectorWriter s @ [sink_line label st]"
  by (simp_all add: writeStatus_def Let_def)

lemma record_lookup_frame:
  "statusCache (record_lookup label m i s) = statusCache s"
  "lookups (record_lookup label m i s) = lookups s"
  "calls (record_lookup label m i s) = calls s"
  "seenIds (record_lookup label m i s) = seenIds s"
  "pendingLookup (record_lookup label m i s) = pendingLookup s"
  "totalCollected (record_lookup label m i s) = totalCollected s"
  "uniqueUsers (record_lookup label m i s) = uniqueUsers s"
  "newlyChecked (record_lookup label m i s) = newlyChecked s"
  by (simp_all add: record_lookup_def writeStatus_frame split: option.split)

lemma record_lookup_writes:
  "rotectorWriter (record_lookup label m i s) =
     rotectorWriter s @ (case m i of Some st \<Rightarrow> [sink_line label st] | None \<Rightarrow> [])"
  "warnings (record_lookup label m i s) =
     warnings s @ (case m i of Some st \<Rightarrow> [] | None \<Rightarrow> [i])"
  by (simp_all add: record_lookup_def writeStatus_frame split: option.split)

lemma fold_record_lookup_frame:
  "statusCache (fold (record_lookup label m) chunk s) = statusCache s"
  "lookups (fold (record_lookup label m) chunk s) = lookups s"
  "calls (fold (record_lookup label m) chunk s) = calls s"
  "seenIds (fold (record_lookup label m) chunk s) = seenIds s"
  "pendingLookup (fold (record_lookup label m) chunk s) = pendingLookup s"
  "totalCollected (fold (record_lookup label m) chunk s) = totalCollected s"
  "uniqueUsers (fold (record_lookup label m) chunk s) = uniqueUsers s"
  "newlyChecked (fold (record_lookup label m) chunk s) = newlyChecked s"
  by (induction chunk arbitrary: s; simp add: record_lookup_frame)+

text \<open>The lines and the warnings a chunk adds, given the results of its lookup.\<close>

lemma fold_record_lookup_writes:
  "rotectorWriter (fold (record_lookup label m) chunk s) =
     rotectorWriter s @ List.map_filter (\<lambda>i. map_option (sink_line label) (m i)) chunk"
  "warnings (fold (record_lookup label m) chunk s) =
     warnings s @ filter (\<lambda>i. m i = None) chunk"
proof (induction chunk arbitrary: s)
  case Nil
  {
    case 1
    show ?case by simp
  next
    case 2
    show ?case by simp
  }
next
  case (Cons i chunk)
  {
    case 1
    show ?case
      by (cases "m i") (simp_all add: Cons.IH(1) record_lookup_writes)
  next
    case 2
    show ?case
      by (cases "m i") (simp_all add: Cons.IH(2) record_lookup_writes)
  }
qed

lemma flushLookup_empty: "pendingLookup s = [] \<Longrightarrow> flushLookup svc label s = (s, Resolved)"
  by (simp add: flushLookup_def)

text \<open>What a flush of a buffer that is not empty does, however its lookup ends.\<close>

lemma flushLookup_log:
  assumes "pendingLookup s \<noteq> []"
  shows "lookups (fst (flushLookup svc label s)) =
      lookups s @ map (\<lambda>b. \<lparr>batch = b, cache_then = statusCache s\<rparr>)
        (batches_from 0 (pendingLookup s))"
    and "calls (fst (flushLookup svc label s)) = Suc (calls s)"
    and "seenIds (fst (flushLookup svc label s)) = seenIds s"
    and "pendingLookup (fst (flushLookup svc label s)) = []"
    and "totalCollected (fst (flushLookup svc label s)) = totalCollected s"
    and "uniqueUsers (fst (flushLookup svc label s)) = uniqueUsers s"
  using assms
  by (simp_all add: flushLookup_def Let_def checkLotsOfUsers_logged fold_record_lookup_frame
      persistCache_def split: option.split sum.split)

lemma flushLookup_pending:
  assumes "pendingLookup s \<noteq> []"
    and "snd (checkLotsOfUsers (fst (svc (calls s))) (snd (svc (calls s))) (pendingLookup s)) = None"
  shows "snd (flushLookup svc label s) = Pending"
    and "statusCache (fst (flushLookup svc label s)) = statusCache s"
    and "rotectorWriter (fst (flushLookup svc label s)) = rotectorWriter s"
    and "warnings (fst (flushLookup svc label s)) = warnings s"
  using assms by (simp_all add: flushLookup_def Let_def)

lemma flushLookup_result:
  assumes "pendingLookup s \<noteq> []"
    and "snd (checkLotsOfUsers (fst (svc (calls s))) (snd (svc (calls s))) (pendingLookup s)) =
         Some (Inr m)"
  shows "snd (flushLookup svc label s) = Resolved"
    and "statusCache (fst (flushLookup svc label s)) = statusCache s ++ m"
    and "newlyChecked (fst (flushLookup svc label s)) = newlyChecked s + length (pendingLookup s)"
    and "rotectorWriter (fst (flushLookup svc label s)) = rotectorWriter s @
      List.map_filter (\<lambda>i. map_option (sink_line label) (m i)) (pendingLookup s)"
    and "warnings (fst (flushLookup svc label s)) =
      warnings s @ filter (\<lambda>i. m i = None) (pendingLookup s)"
  using assms
  by (simp_all add: flushLookup_def Let_def fold_record_lookup_frame fold_record_lookup_writes
      persistCache_def)

lemma flushLookup_cases:
  assumes "pendingLookup s \<noteq> []"
  shows "snd (flushLookup svc label s) = Pending \<and>
      snd (checkLotsOfUsers (fst (svc (calls s))) (snd (svc (calls s))) (pendingLookup s)) = None \<and>
      statusCache (fst (flushLookup svc label s)) = statusCache s \<and>
      rotectorWriter (fst (flushLookup svc label s)) = rotectorWriter s \<and>
      warnings (fst (flushLookup svc label s)) = warnings s
    \<or> (\<exists>m. snd (flushLookup svc label s) = Resolved \<and>
      snd (checkLotsOfUsers (fst (svc (calls s))) (snd (svc (calls s))) (pendingLookup s)) =
        Some (Inr m) \<and>
      statusCache (fst (flushLookup svc label s)) = statusCache s ++ m \<and>
      rotectorWriter (fst (flushLookup svc label s)) = rotectorWriter s @
        List.map_filter (\<lambda>i. map_option (sink_line label) (m i)) (pendingLookup s) \<and>
      warnings (fst (flushLookup svc label s)) =
        warnings s @ filter (\<lambda>i. m i = None) (pendingLookup s))"
proof (cases "snd (checkLotsOfUsers (fst (svc (calls s))) (snd (svc (calls s))) (pendingLookup s))")
  case None
  then show ?thesis
    using flushLookup_pending [of s svc label] assms by simp
next
  case (Some r)
  then obtain m where m: "snd (checkLotsOfUsers (fst (svc (calls s))) (snd (svc (calls s)))
      (pendingLookup s)) = Some (Inr m)"
    using checkLotsOfUsers_never_rejects [of "fst (svc (calls s))" "snd (svc (calls s))"
        "pendingLookup s"]
    by (cases r) auto
  show ?thesis
    using flushLookup_result [of s svc m label] assms m by simp
qed

lemma flushLookup_never_rejects: "snd (flushLookup svc label s) \<noteq> Rejected e"
proof (cases "pendingLookup s = []")
  case True
  then show ?thesis by (simp add: flushLookup_empty)
next
  case False
  from flushLookup_cases [OF False, of svc label] show ?thesis
    by auto
qed

lemma LOOKUP_BATCH_SIZE_eq: "LOOKUP_BATCH_SIZE = BATCH_SIZE"
  by (simp add: LOOKUP_BATCH_SIZE_def BATCH_SIZE_def)

section \<open>The loop over a stream\<close>

text \<open>What one entry does: it is dropped or served from the cache, buffered, or flushed.\<close>

lemma process_entry_effect:
  assumes "process_entry svc label x s = (s', p)"
  shows "seenIds s' = insert x (seenIds s) \<and>
    ((x \<in> seenIds s \<or> x \<in> dom (statusCache s)) \<and> p = Resolved \<and>
       lookups s' = lookups s \<and> calls s' = calls s \<and> pendingLookup s' = pendingLookup s \<and>
       statusCache s' = statusCache s \<and> warnings s' = warnings s \<and>
       rotectorWriter s' =
         (if x \<in> seenIds s then rotectorWriter s
          else rotectorWriter s @ [sink_line label (the (statusCache s x))])
     \<or> x \<notin> seenIds s \<and> x \<notin> dom (statusCache s) \<and>
       Suc (length (pendingLookup s)) < LOOKUP_BATCH_SIZE \<and> p = Resolved \<and>
       lookups s' = lookups s \<and> calls s' = calls s \<and>
       pendingLookup s' = pendingLookup s @ [x] \<and>
       statusCache s' = statusCache s \<and> warnings s' = warnings s \<and>
       rotectorWriter s' = rotectorWriter s
     \<or> x \<notin> seenIds s \<and> x \<notin> dom (statusCache s) \<and>
       LOOKUP_BATCH_SIZE \<le> Suc (length (pendingLookup s)) \<and>
       lookups s' = lookups s @ map (\<lambda>b. \<lparr>batch = b, cache_then = statusCache s\<rparr>)
         (batches_from 0 (pendingLookup s @ [x])) \<and>
       pendingLookup s' = [] \<and>
       (p = Pending \<and>
          snd (checkLotsOfUsers (fst (svc (calls s))) (snd (svc (calls s)))
            (pendingLookup s @ [x])) = None \<and>
          statusCache s' = statusCache s \<and> warnings s' = warnings s \<and>
          rotectorWriter s' = rotectorWriter s
        \<or> (\<exists>m. p = Resolved \<and>
             snd (checkLotsOfUsers (fst (svc (calls s))) (snd (svc (calls s)))
               (pendingLookup s @ [x])) = Some (Inr m) \<and>
             statusCache s' = statusCache s ++ m \<and>
             rotectorWriter s' = rotectorWriter s @
               List.map_filter (\<lambda>i. map_option (sink_line label) (m i)) (pendingLookup s @ [x]) \<and>
             warnings s' = warnings s @ filter (\<lambda>i. m i = None) (pendingLookup s @ [x]))))"
proof (cases "x \<in> seenIds s")
  case True
  have "s' = s\<lparr>totalCollected := totalCollected s + 1\<rparr>" "p = Resolved"
    using assms True by (simp_all add: process_entry_def Let_def)
  then show ?thesis
    using True by (simp add: insert_absorb)
next
  case unseen: False
  show ?thesis
  proof (cases "statusCache s x")
    case (Some cached)
    have "s' = writeStatus label cached
        (s\<lparr>totalCollected := totalCollected s + 1, seenIds := insert x (seenIds s),
           uniqueUsers := uniqueUsers s + 1\<rparr>)" "p = Resolved"
      using assms unseen Some by (simp_all add: process_entry_def Let_def)
    then show ?thesis
      using unseen Some by (simp add: writeStatus_frame domI)
  next
    case None
    then have nd: "x \<notin> dom (statusCache s)"
      by (simp add: domIff)
    show ?thesis
    proof (cases "LOOKUP_BATCH_SIZE \<le> Suc (length (pendingLookup s))")
      case False
      have "s' = s\<lparr>totalCollected := totalCollected s + 1, seenIds := insert x (seenIds s),
           uniqueUsers := uniqueUsers s + 1, pendingLookup := pendingLookup s @ [x]\<rparr>"
        "p = Resolved"
        using assms unseen None False by (simp_all add: process_entry_def Let_def)
      then show ?thesis
        using unseen nd False by simp
    next
      case True
      let ?s3 = "s\<lparr>totalCollected := totalCollected s + 1,
        seenIds := insert x (seenIds s), uniqueUsers := uniqueUsers s + 1,
        pendingLookup := pendingLookup s @ [x]\<rparr>"
      have fl: "flushLookup svc label ?s3 = (s', p)"
        using assms unseen None True by (simp add: process_entry_def Let_def)
      have ne: "pendingLookup ?s3 \<noteq> []"
        by simp
      have f: "pendingLookup ?s3 = pendingLookup s @ [x]" "calls ?s3 = calls s"
        "statusCache ?s3 = statusCache s" "rotectorWriter ?s3 = rotectorWriter s"
        "warnings ?s3 = warnings s"
        by simp_all
      have log: "seenIds s' = insert x (seenIds s)"
        "lookups s' = lookups s @ map (\<lambda>b. \<lparr>batch = b, cache_then = statusCache s\<rparr>)
           (batches_from 0 (pendingLookup s @ [x]))"
        "pendingLookup s' = []"
        using flushLookup_log [OF ne, of svc label] fl by simp_all
      have "p = Pending \<and>
          snd (checkLotsOfUsers (fst (svc (calls s))) (snd (svc (calls s)))
            (pendingLookup s @ [x])) = None \<and>
          statusCache s' = statusCache s \<and> warnings s' = warnings s \<and>
          rotectorWriter s' = rotectorWriter s
        \<or> (\<exists>m. p = Resolved \<and>
             snd (checkLotsOfUsers (fst (svc (calls s))) (snd (svc (calls s)))
               (pendingLookup s @ [x])) = Some (Inr m) \<and>
             statusCache s' = statusCache s ++ m \<and>
             rotectorWriter s' = rotectorWriter s @
               List.map_filter (\<lambda>i. map_option (sink_line label) (m i)) (pendingLookup s @ [x]) \<and>
             warnings s' = warnings s @ filter (\<lambda>i. m i = None) (pendingLookup s @ [x]))"
        using flushLookup_cases [OF ne, of svc label] unfolding fl fst_conv snd_conv f by blast
      then show ?thesis
        using unseen nd True log by blast
    qed
  qed
qed

lemma process_entry_never_rejects: "snd (process_entry svc label x s) \<noteq> Rejected e"
  by (simp add: process_entry_def Let_def flushLookup_never_rejects split: option.split)

lemma process_stream_Cons:
  "process_entry svc label x s = (s1, p1) \<Longrightarrow>
   process_stream svc label (x # rest) s =
     (if p1 = Resolved then process_stream svc label rest s1 else (s1, p1))"
  by (cases p1) simp_all

lemma process_stream_never_rejects: "snd (process_stream svc label xs s) \<noteq> Rejected e"
proof (induction xs arbitrary: s)
  case Nil
  then show ?case by simp
next
  case (Cons x xs)
  obtain s1 p1 where s1: "process_entry svc label x s = (s1, p1)"
    by (cases "process_entry svc label x s")
  have "p1 \<noteq> Rejected e"
    using process_entry_never_rejects [of svc label x s e] s1 by simp
  then show ?case
    unfolding process_stream_Cons [OF s1] using Cons [of s1] by simp
qed

lemma enter_source_frame:
  "statusCache (enter_source g) = statusCache g"
  "lookups (enter_source g) = lookups g"
  "calls (enter_source g) = calls g"
  "seenIds (enter_source g) = {}"
  "pendingLookup (enter_source g) = []"
  "rotectorWriter (enter_source g) = []"
  "warnings (enter_source g) = []"
  by (simp_all add: enter_source_def)

lemma process_entry_keeps_cache:
  assumes "process_entry svc label x s = (s', p)"
  shows "dom (statusCache s) \<subseteq> dom (statusCache s')"
proof -
  from process_entry_effect [OF assms] have
    "statusCache s' = statusCache s \<or> (\<exists>m. statusCache s' = statusCache s ++ m)"
    by blast
  then show ?thesis
    by (elim disjE exE) simp_all
qed

lemma source_inv_enter: "source_inv g [] (enter_source g)"
  by (simp add: source_inv_def enter_source_frame LOOKUP_BATCH_SIZE_def)

lemma source_inv_step:
  assumes inv: "source_inv g seen s"
    and step: "process_entry svc label x s = (s', p)"
  shows "source_inv g (seen @ [x]) s'"
proof -
  from inv obtain L where
    seen: "seenIds s = set seen" and
    cache: "dom (statusCache g) \<subseteq> dom (statusCache s)" and
    len: "length (pendingLookup s) < LOOKUP_BATCH_SIZE" and
    unc: "set (pendingLookup s) \<inter> dom (statusCache s) = {}" and
    L: "lookups s = lookups g @ L" and
    full: "\<forall>l \<in> set L. length (batch l) = LOOKUP_BATCH_SIZE \<and>
             set (batch l) \<inter> dom (cache_then l) = {} \<and>
             dom (statusCache g) \<subseteq> dom (cache_then l)" and
    dist: "distinct (concat (map batch L) @ pendingLookup s)" and
    sub: "set (concat (map batch L) @ pendingLookup s) \<subseteq> set seen - dom (statusCache g)" and
    cov: "set seen \<subseteq> set (concat (map batch L)) \<union> set (pendingLookup s) \<union> dom (statusCache s)"
    unfolding source_inv_def by blast
  from process_entry_effect [OF step] have seen': "seenIds s' = set (seen @ [x])"
    using seen by simp
  from process_entry_effect [OF step] consider
    (same) "x \<in> seenIds s \<or> x \<in> dom (statusCache s)"
      "lookups s' = lookups s" "pendingLookup s' = pendingLookup s"
      "statusCache s' = statusCache s"
  | (push) "x \<notin> seenIds s" "x \<notin> dom (statusCache s)"
      "Suc (length (pendingLookup s)) < LOOKUP_BATCH_SIZE"
      "lookups s' = lookups s" "pendingLookup s' = pendingLookup s @ [x]"
      "statusCache s' = statusCache s"
  | (flush) "x \<notin> seenIds s" "x \<notin> dom (statusCache s)"
      "LOOKUP_BATCH_SIZE \<le> Suc (length (pendingLookup s))"
      "lookups s' = lookups s @ map (\<lambda>b. \<lparr>batch = b, cache_then = statusCache s\<rparr>)
         (batches_from 0 (pendingLookup s @ [x]))"
      "pendingLookup s' = []" "dom (statusCache s) \<subseteq> dom (statusCache s')"
    using process_entry_keeps_cache [OF step] by blast
  then show ?thesis
  proof cases
    case same
    have 1: "set (concat (map batch L) @ pendingLookup s) \<subseteq> set (seen @ [x]) - dom (statusCache g)"
      using sub by auto
    have 2: "set (seen @ [x]) \<subseteq>
        set (concat (map batch L)) \<union> set (pendingLookup s) \<union> dom (statusCache s)"
      using cov same(1) seen by auto
    show ?thesis
      unfolding source_inv_def same(2-4)
      using seen' cache len unc L full dist 1 2
      by (intro conjI exI [of _ L]) assumption+
  next
    case push
    have x: "x \<notin> set (concat (map batch L) @ pendingLookup s)" "x \<notin> dom (statusCache g)"
      using push(1,2) seen sub cache by auto
    have d: "distinct (concat (map batch L) @ pendingLookup s @ [x])"
      using dist x(1) by simp
    have s: "set (concat (map batch L) @ pendingLookup s @ [x]) \<subseteq>
        set (seen @ [x]) - dom (statusCache g)"
      using sub x(2) by auto
    have u: "set (pendingLookup s @ [x]) \<inter> dom (statusCache s) = {}"
      using unc push(2) by auto
    have c: "set (seen @ [x]) \<subseteq>
        set (concat (map batch L)) \<union> set (pendingLookup s @ [x]) \<union> dom (statusCache s)"
      using cov by auto
    have pl: "length (pendingLookup s @ [x]) < LOOKUP_BATCH_SIZE"
      using push(3) by simp
    show ?thesis
      unfolding source_inv_def push(4-6)
      using seen' cache pl u L full d s c
      by (intro conjI exI [of _ L]) assumption+
  next
    case flush
    have x: "x \<notin> set (concat (map batch L) @ pendingLookup s)" "x \<notin> dom (statusCache g)"
      using flush(1,2) seen sub cache by auto
    have n: "length (pendingLookup s @ [x]) = LOOKUP_BATCH_SIZE"
      using flush(3) len by simp
    then have b: "batches_from 0 (pendingLookup s @ [x]) = [pendingLookup s @ [x]]"
      by (simp add: batches_from_single LOOKUP_BATCH_SIZE_eq)
    let ?l = "\<lparr>batch = pendingLookup s @ [x], cache_then = statusCache s\<rparr>"
    let ?L = "L @ [?l]"
    have 1: "lookups s' = lookups g @ ?L"
      using flush(4) L b by simp
    have "set (pendingLookup s @ [x]) \<inter> dom (statusCache s) = {}"
      using unc flush(2) by auto
    then have 2: "\<forall>l \<in> set ?L. length (batch l) = LOOKUP_BATCH_SIZE \<and>
             set (batch l) \<inter> dom (cache_then l) = {} \<and>
             dom (statusCache g) \<subseteq> dom (cache_then l)"
      using full n cache by simp
    have 3: "distinct (concat (map batch ?L) @ pendingLookup s')"
      using dist x(1) flush(5) by simp
    have 4: "set (concat (map batch ?L) @ pendingLookup s') \<subseteq>
        set (seen @ [x]) - dom (statusCache g)"
      using sub x(2) flush(5) by auto
    have 5: "dom (statusCache g) \<subseteq> dom (statusCache s')"
      using cache flush(6) by auto
    have 6: "length (pendingLookup s') < LOOKUP_BATCH_SIZE"
      using flush(5) by (simp add: LOOKUP_BATCH_SIZE_def)
    have 7: "set (pendingLookup s') \<inter> dom (statusCache s') = {}"
      using flush(5) by simp
    have 8: "set (seen @ [x]) \<subseteq>
        set (concat (map batch ?L)) \<union> set (pendingLookup s') \<union> dom (statusCache s')"
      using cov flush(6) by auto
    show ?thesis
      unfolding source_inv_def using seen' 1 2 3 4 5 6 7 8
      by (intro conjI exI [of _ ?L]) assumption+
  qed
qed

text \<open>
  Where the loop stops, the invariant holds for the entries taken up to there; when
  the loop runs to its end, these are all entries.
\<close>

lemma source_inv_stream:
  "source_inv g seen s \<Longrightarrow> process_stream svc label xs s = (s', p) \<Longrightarrow>
   \<exists>k \<le> length xs. source_inv g (seen @ take k xs) s' \<and> (p = Resolved \<longrightarrow> k = length xs)"
proof (induction xs arbitrary: seen s)
  case Nil
  then show ?case by simp
next
  case (Cons x xs)
  obtain s1 p1 where s1: "process_entry svc label x s = (s1, p1)"
    by (cases "process_entry svc label x s")
  have inv1: "source_inv g (seen @ [x]) s1"
    using source_inv_step [OF Cons.prems(1) s1] .
  show ?case
  proof (cases "p1 = Resolved")
    case True
    then have "process_stream svc label xs s1 = (s', p)"
      using Cons.prems(2) unfolding process_stream_Cons [OF s1] by simp
    from Cons.IH [OF inv1 this] obtain k where
      "k \<le> length xs" "source_inv g ((seen @ [x]) @ take k xs) s'" "p = Resolved \<longrightarrow> k = length xs"
      by blast
    then have "Suc k \<le> length (x # xs) \<and> source_inv g (seen @ take (Suc k) (x # xs)) s' \<and>
        (p = Resolved \<longrightarrow> Suc k = length (x # xs))"
      by simp
    then show ?thesis
      by blast
  next
    case False
    then have "s' = s1" "p = p1"
      using Cons.prems(2) unfolding process_stream_Cons [OF s1] by simp_all
    then have "Suc 0 \<le> length (x # xs) \<and> source_inv g (seen @ take (Suc 0) (x # xs)) s' \<and>
        (p = Resolved \<longrightarrow> Suc 0 = length (x # xs))"
      using inv1 False by simp
    then show ?thesis
      by blast
  qed
qed

section \<open>The lookups of a source\<close>

lemma processEntries_unfold:
  assumes "process_stream svc label (fst entryStream) (enter_source g) = (s, p)"
  shows "processEntries svc label entryStream g =
     (if p = Resolved
      then (case snd entryStream of
              Done \<Rightarrow> flushLookup svc label s
            | Threw e \<Rightarrow> (s, Rejected e)
            | Stalled \<Rightarrow> (s, Pending))
      else (s, p))"
  by (cases p) (simp_all add: processEntries_def assms)

lemma handed_since_eq: "lookups s = lookups g @ L \<Longrightarrow> handed_since g s = concat (map batch L)"
  by (simp add: handed_since_def)

lemma batches_of_full:
  assumes "\<forall>l \<in> set L. length (batch l) = LOOKUP_BATCH_SIZE"
  shows "batches_from 0 (concat (map batch L)) = map batch L"
proof -
  have "\<forall>b \<in> set (map batch L). length b = BATCH_SIZE"
    using assms by (simp add: LOOKUP_BATCH_SIZE_eq)
  from batches_from_chunks [OF this, of "[]"] show ?thesis
    using BATCH_SIZE_pos by simp
qed

lemma flushLookup_keeps_cache:
  "dom (statusCache s) \<subseteq> dom (statusCache (fst (flushLookup svc label s)))"
proof (cases "pendingLookup s = []")
  case True
  then show ?thesis by (simp add: flushLookup_empty)
next
  case False
  from flushLookup_cases [OF False, of svc label] have
    "statusCache (fst (flushLookup svc label s)) = statusCache s \<or>
     (\<exists>m. statusCache (fst (flushLookup svc label s)) = statusCache s ++ m)"
    by blast
  then show ?thesis
    by (elim disjE exE) simp_all
qed

text \<open>
  What the invariant gives where a source stops before its last flush: the calls logged
  are for the batches of identifiers that were new to the source and not cached.
\<close>

lemma source_inv_stopped:
  assumes inv: "source_inv g seen s"
  shows "\<exists>L unseen. lookups s = lookups g @ L \<and> map batch L = batches_from 0 unseen \<and>
    distinct unseen \<and> set unseen \<subseteq> set seen - dom (statusCache g) \<and>
    (\<forall>l \<in> set L. set (batch l) \<inter> dom (cache_then l) = {} \<and>
       dom (statusCache g) \<subseteq> dom (cache_then l)) \<and>
    dom (statusCache g) \<subseteq> dom (statusCache s)"
proof -
  from inv obtain L where
    cache: "dom (statusCache g) \<subseteq> dom (statusCache s)" and
    L: "lookups s = lookups g @ L" and
    full: "\<forall>l \<in> set L. length (batch l) = LOOKUP_BATCH_SIZE \<and>
             set (batch l) \<inter> dom (cache_then l) = {} \<and>
             dom (statusCache g) \<subseteq> dom (cache_then l)" and
    dist: "distinct (concat (map batch L) @ pendingLookup s)" and
    sub: "set (concat (map batch L) @ pendingLookup s) \<subseteq> set seen - dom (statusCache g)"
    unfolding source_inv_def by blast
  have 1: "map batch L = batches_from 0 (concat (map batch L))"
    using batches_of_full [of L] full by simp
  have 2: "distinct (concat (map batch L))"
    using dist by simp
  have 3: "set (concat (map batch L)) \<subseteq> set seen - dom (statusCache g)"
    using sub by auto
  have 4: "\<forall>l \<in> set L. set (batch l) \<inter> dom (cache_then l) = {} \<and>
       dom (statusCache g) \<subseteq> dom (cache_then l)"
    using full by blast
  show ?thesis
    using L 1 2 3 4 cache
    by (intro exI [of _ L] exI [of _ "concat (map batch L)"] conjI) assumption+
qed

text \<open>The same after the last flush, which hands over what is left in the buffer.\<close>

lemma source_inv_flush:
  assumes inv: "source_inv g seen s"
    and fl: "flushLookup svc label s = (s', p)"
  shows "\<exists>L unseen. lookups s' = lookups g @ L \<and> map batch L = batches_from 0 unseen \<and>
    distinct unseen \<and> set unseen \<subseteq> set seen - dom (statusCache g) \<and>
    (\<forall>l \<in> set L. set (batch l) \<inter> dom (cache_then l) = {} \<and>
       dom (statusCache g) \<subseteq> dom (cache_then l)) \<and>
    dom (statusCache g) \<subseteq> dom (statusCache s') \<and>
    set seen \<subseteq> set unseen \<union> dom (statusCache s') \<and>
    seenIds s' = set seen \<and> pendingLookup s' = []"
proof (cases "pendingLookup s = []")
  case True
  then have same: "s' = s"
    using fl by (simp add: flushLookup_empty)
  from inv obtain L where
    seen: "seenIds s = set seen" and
    cache: "dom (statusCache g) \<subseteq> dom (statusCache s)" and
    L: "lookups s = lookups g @ L" and
    full: "\<forall>l \<in> set L. length (batch l) = LOOKUP_BATCH_SIZE \<and>
             set (batch l) \<inter> dom (cache_then l) = {} \<and>
             dom (statusCache g) \<subseteq> dom (cache_then l)" and
    dist: "distinct (concat (map batch L) @ pendingLookup s)" and
    sub: "set (concat (map batch L) @ pendingLookup s) \<subseteq> set seen - dom (statusCache g)" and
    cov: "set seen \<subseteq> set (concat (map batch L)) \<union> set (pendingLookup s) \<union> dom (statusCache s)"
    unfolding source_inv_def by blast
  have 1: "map batch L = batches_from 0 (concat (map batch L))"
    using batches_of_full [of L] full by simp
  have 2: "distinct (concat (map batch L))"
    using dist by simp
  have 3: "set (concat (map batch L)) \<subseteq> set seen - dom (statusCache g)"
    using sub by auto
  have 4: "\<forall>l \<in> set L. set (batch l) \<inter> dom (cache_then l) = {} \<and>
       dom (statusCache g) \<subseteq> dom (cache_then l)"
    using full by blast
  have 5: "set seen \<subseteq> set (concat (map batch L)) \<union> dom (statusCache s)"
    using cov True by simp
  show ?thesis
    unfolding same using L 1 2 3 4 5 cache seen True
    by (intro exI [of _ L] exI [of _ "concat (map batch L)"] conjI) assumption+
next
  case False
  from inv obtain L where
    seen: "seenIds s = set seen" and
    cache: "dom (statusCache g) \<subseteq> dom (statusCache s)" and
    len: "length (pendingLookup s) < LOOKUP_BATCH_SIZE" and
    unc: "set (pendingLookup s) \<inter> dom (statusCache s) = {}" and
    L: "lookups s = lookups g @ L" and
    full: "\<forall>l \<in> set L. length (batch l) = LOOKUP_BATCH_SIZE \<and>
             set (batch l) \<inter> dom (cache_then l) = {} \<and>
             dom (statusCache g) \<subseteq> dom (cache_then l)" and
    dist: "distinct (concat (map batch L) @ pendingLookup s)" and
    sub: "set (concat (map batch L) @ pendingLookup s) \<subseteq> set seen - dom (statusCache g)" and
    cov: "set seen \<subseteq> set (concat (map batch L)) \<union> set (pendingLookup s) \<union> dom (statusCache s)"
    unfolding source_inv_def by blast
  let ?l = "\<lparr>batch = pendingLookup s, cache_then = statusCache s\<rparr>"
  let ?L = "L @ [?l]"
  let ?unseen = "concat (map batch L) @ pendingLookup s"
  have b: "batches_from 0 (pendingLookup s) = [pendingLookup s]"
    using False len by (simp add: batches_from_single LOOKUP_BATCH_SIZE_eq)
  have log: "lookups s' = lookups s @ [?l]" "seenIds s' = seenIds s" "pendingLookup s' = []"
    using flushLookup_log [OF False, of svc label] fl b by simp_all
  have grows: "dom (statusCache s) \<subseteq> dom (statusCache s')"
    using flushLookup_keeps_cache [of s svc label] fl by simp
  have 0: "lookups s' = lookups g @ ?L"
    using log(1) L by simp
  have "\<forall>b \<in> set (map batch L). length b = BATCH_SIZE"
    using full by (simp add: LOOKUP_BATCH_SIZE_eq)
  from batches_from_chunks [OF this, of "pendingLookup s"]
  have 1: "map batch ?L = batches_from 0 ?unseen"
    using False len by (simp add: LOOKUP_BATCH_SIZE_eq)
  have 4: "\<forall>l \<in> set ?L. set (batch l) \<inter> dom (cache_then l) = {} \<and>
       dom (statusCache g) \<subseteq> dom (cache_then l)"
    using full unc cache by simp
  have 5: "dom (statusCache g) \<subseteq> dom (statusCache s')"
    using cache grows by blast
  have 6: "set seen \<subseteq> set ?unseen \<union> dom (statusCache s')"
    using cov grows by auto
  have 7: "seenIds s' = set seen"
    using log(2) seen by simp
  show ?thesis
    using 0 1 dist sub 4 5 6 7 log(3)
    by (intro exI [of _ ?L] exI [of _ ?unseen] conjI) assumption+
qed

text \<open>The lookups of one source, however it ends.\<close>

lemma processEntries_lookups:
  assumes "processEntries svc label entryStream g = (s', p)"
  shows "\<exists>L unseen. lookups s' = lookups g @ L \<and> map batch L = batches_from 0 unseen \<and>
    distinct unseen \<and> set unseen \<subseteq> set (fst entryStream) - dom (statusCache g) \<and>
    (\<forall>l \<in> set L. set (batch l) \<inter> dom (cache_then l) = {} \<and>
       dom (statusCache g) \<subseteq> dom (cache_then l)) \<and>
    dom (statusCache g) \<subseteq> dom (statusCache s') \<and>
    (p = Resolved \<longrightarrow>
       set (fst entryStream) \<subseteq> set unseen \<union> dom (statusCache s') \<and>
       seenIds s' = set (fst entryStream) \<and> pendingLookup s' = [] \<and> snd entryStream = Done)"
proof -
  obtain s q where s: "process_stream svc label (fst entryStream) (enter_source g) = (s, q)"
    by (cases "process_stream svc label (fst entryStream) (enter_source g)")
  from source_inv_stream [OF source_inv_enter s] obtain k where
    k: "k \<le> length (fst entryStream)" and
    inv: "source_inv g (take k (fst entryStream)) s" and
    all: "q = Resolved \<longrightarrow> k = length (fst entryStream)"
    by auto
  have sub: "set (take k (fst entryStream)) \<subseteq> set (fst entryStream)"
    by (rule set_take_subset)
  show ?thesis
  proof (cases "q = Resolved \<and> snd entryStream = Done")
    case True
    then have fl: "flushLookup svc label s = (s', p)"
      using assms by (simp add: processEntries_unfold [OF s])
    have inv': "source_inv g (fst entryStream) s"
      using inv all True by simp
    from source_inv_flush [OF inv' fl] obtain L unseen where
      "lookups s' = lookups g @ L" "map batch L = batches_from 0 unseen" "distinct unseen"
      "set unseen \<subseteq> set (fst entryStream) - dom (statusCache g)"
      "\<forall>l \<in> set L. set (batch l) \<inter> dom (cache_then l) = {} \<and>
         dom (statusCache g) \<subseteq> dom (cache_then l)"
      "dom (statusCache g) \<subseteq> dom (statusCache s')"
      "set (fst entryStream) \<subseteq> set unseen \<union> dom (statusCache s')"
      "seenIds s' = set (fst entryStream)" "pendingLookup s' = []"
      by blast
    then show ?thesis
      using True by (intro exI [of _ L] exI [of _ unseen] conjI impI) simp_all
  next
    case False
    have q: "q \<noteq> Rejected e" for e
      using process_stream_never_rejects [of svc label "fst entryStream" "enter_source g" e] s
      by simp
    have "s' = s \<and> p \<noteq> Resolved"
    proof (cases "q = Resolved")
      case True
      then show ?thesis
        using False assms by (cases "snd entryStream") (auto simp: processEntries_unfold [OF s])
    next
      case False
      then show ?thesis
        using assms by (simp add: processEntries_unfold [OF s])
    qed
    moreover from source_inv_stopped [OF inv] obtain L unseen where
      "lookups s = lookups g @ L" "map batch L = batches_from 0 unseen" "distinct unseen"
      "set unseen \<subseteq> set (take k (fst entryStream)) - dom (statusCache g)"
      "\<forall>l \<in> set L. set (batch l) \<inter> dom (cache_then l) = {} \<and>
         dom (statusCache g) \<subseteq> dom (cache_then l)"
      "dom (statusCache g) \<subseteq> dom (statusCache s)"
      by blast
    moreover have "set unseen \<subseteq> set (fst entryStream) - dom (statusCache g)"
      using calculation(5) sub by blast
    ultimately show ?thesis
      by (intro exI [of _ L] exI [of _ unseen] conjI impI) simp_all
  qed
qed


section \<open>The lookups of a run\<close>

lemma processSources_Cons:
  assumes "processEntries svc label entryStream g = (s, p)"
  shows "processSources svc ((label, entryStream) # rest) g =
     (if p = Resolved
      then (s # fst (processSources svc rest s), snd (processSources svc rest s))
      else ([s], p))"
  by (cases p) (simp_all add: assms)

lemma count_list_distinct: "distinct xs \<Longrightarrow> count_list xs x \<le> 1"
  by (induction xs) auto

lemma processSources_lookups:
  "\<exists>L. lookups (last (g # fst (processSources svc sources g))) = lookups g @ L \<and>
     (\<forall>x. count_list (concat (map batch L)) x \<le>
            length (filter (\<lambda>src. x \<in> set (fst (snd src))) sources)) \<and>
     (\<forall>l \<in> set L. set (batch l) \<inter> dom (cache_then l) = {} \<and>
        dom (statusCache g) \<subseteq> dom (cache_then l)) \<and>
     dom (statusCache g) \<subseteq> dom (statusCache (last (g # fst (processSources svc sources g))))"
proof (induction sources arbitrary: g)
  case Nil
  then show ?case by simp
next
  case (Cons src sources)
  obtain label entryStream where src: "src = (label, entryStream)"
    by (cases src)
  obtain s p where s: "processEntries svc label entryStream g = (s, p)"
    by (cases "processEntries svc label entryStream g")
  from processEntries_lookups [OF s] obtain L0 unseen where
    u0: "lookups s = lookups g @ L0" and
    u1: "map batch L0 = batches_from 0 unseen" and
    u2: "distinct unseen" and
    u3: "set unseen \<subseteq> set (fst entryStream) - dom (statusCache g)" and
    u4: "\<forall>l \<in> set L0. set (batch l) \<inter> dom (cache_then l) = {} \<and>
           dom (statusCache g) \<subseteq> dom (cache_then l)" and
    u5: "dom (statusCache g) \<subseteq> dom (statusCache s)"
    by blast
  have c0: "concat (map batch L0) = unseen"
    using u1 by (simp add: concat_batches_from)
  have count0: "count_list unseen x \<le> (if x \<in> set (fst entryStream) then 1 else 0)" for x
    using count_list_distinct [OF u2, of x] u3 by (cases "x \<in> set unseen") auto
  show ?case
  proof (cases "p = Resolved")
    case False
    then have run: "fst (processSources svc (src # sources) g) = [s]"
      unfolding src processSources_Cons [OF s] by simp
    have 2: "count_list (concat (map batch L0)) x \<le>
        length (filter (\<lambda>src. x \<in> set (fst (snd src))) (src # sources))" for x
      using count0 [of x] by (auto simp: src c0 split: if_splits)
    have fin: "last (g # [s]) = s"
      by simp
    show ?thesis
      unfolding run fin using u0 2 u4 u5 by blast
  next
    case True
    then have run: "fst (processSources svc (src # sources) g) =
        s # fst (processSources svc sources s)"
      unfolding src processSources_Cons [OF s] by simp
    let ?final = "last (s # fst (processSources svc sources s))"
    from Cons.IH [of s] obtain L where
      l1: "lookups ?final = lookups s @ L" and
      l2: "\<forall>x. count_list (concat (map batch L)) x \<le>
             length (filter (\<lambda>src. x \<in> set (fst (snd src))) sources)" and
      l3: "\<forall>l \<in> set L. set (batch l) \<inter> dom (cache_then l) = {} \<and>
             dom (statusCache s) \<subseteq> dom (cache_then l)" and
      l4: "dom (statusCache s) \<subseteq> dom (statusCache ?final)"
      by blast
    have 1: "lookups ?final = lookups g @ (L0 @ L)"
      using l1 u0 by simp
    have 2: "count_list (concat (map batch (L0 @ L))) x \<le>
        length (filter (\<lambda>src. x \<in> set (fst (snd src))) (src # sources))" for x
      using count0 [of x] l2 [rule_format, of x] by (auto simp: src c0 split: if_splits)
    have 3: "\<forall>l \<in> set (L0 @ L). set (batch l) \<inter> dom (cache_then l) = {} \<and>
        dom (statusCache g) \<subseteq> dom (cache_then l)"
    proof
      fix l
      assume "l \<in> set (L0 @ L)"
      then consider "l \<in> set L0" | "l \<in> set L"
        by auto
      then show "set (batch l) \<inter> dom (cache_then l) = {} \<and>
          dom (statusCache g) \<subseteq> dom (cache_then l)"
      proof cases
        case 1
        then show ?thesis using u4 by blast
      next
        case 2
        then show ?thesis using l3 u5 by blast
      qed
    qed
    have 4: "dom (statusCache g) \<subseteq> dom (statusCache ?final)"
      using u5 l4 by blast
    have fin: "last (g # fst (processSources svc (src # sources) g)) = ?final"
      unfolding run by simp
    show ?thesis
      unfolding fin using 1 2 3 4 by blast
  qed
qed

section \<open>Runs that end\<close>

lemma settles_checkLotsOfUsers:
  assumes "always_settles svc"
  shows "snd (checkLotsOfUsers (fst (svc k)) (snd (svc k)) ids) \<noteq> None"
proof -
  let ?bs = "batches_from 0 ids"
  let ?outs = "map snd (outcomes_of (snd (svc k)) ?bs)"
  have "None \<notin> set ?outs"
  proof
    assume "None \<in> set ?outs"
    then obtain i where i: "i < length ?outs" and n: "?outs ! i = None"
      unfolding in_set_conv_nth by blast
    have il: "i < length ?bs"
      using i by (simp add: outcomes_of_length)
    have "snd (checkMultipleUsers (?bs ! i) (snd (svc k) i (?bs ! i))) = None"
      using n il outcomes_of_nth [OF il, of "snd (svc k)"] by (simp add: outcomes_of_length)
    then show False
      using assms unfolding always_settles_def by blast
  qed
  then show ?thesis
    by (simp add: checkLotsOfUsers_eq)
qed

lemma settles_flushLookup:
  assumes "always_settles svc"
  shows "snd (flushLookup svc label s) = Resolved"
proof (cases "pendingLookup s = []")
  case True
  then show ?thesis by (simp add: flushLookup_empty)
next
  case False
  from flushLookup_cases [OF False, of svc label]
    settles_checkLotsOfUsers [OF assms, of "calls s" "pendingLookup s"]
  show ?thesis
    by blast
qed

lemma settles_process_entry:
  assumes "always_settles svc"
  shows "snd (process_entry svc label x s) = Resolved"
  using settles_flushLookup [OF assms]
  by (simp add: process_entry_def Let_def split: option.split)

lemma settles_process_stream:
  assumes "always_settles svc"
  shows "snd (process_stream svc label xs s) = Resolved"
proof (induction xs arbitrary: s)
  case Nil
  then show ?case by simp
next
  case (Cons x xs)
  obtain s1 p1 where s1: "process_entry svc label x s = (s1, p1)"
    by (cases "process_entry svc label x s")
  have "p1 = Resolved"
    using settles_process_entry [OF assms, of label x s] s1 by simp
  then show ?case
    unfolding process_stream_Cons [OF s1] using Cons [of s1] by simp
qed

text \<open>
  With a service whose every request loop ends, a source whose stream is exhausted is
  processed to its end: nothing hangs and nothing is thrown.
\<close>

lemma settles_processEntries:
  assumes "always_settles svc"
  shows "snd (processEntries svc label (xs, Done) g) = Resolved"
proof -
  obtain s p where s: "process_stream svc label xs (enter_source g) = (s, p)"
    by (cases "process_stream svc label xs (enter_source g)")
  have "p = Resolved"
    using settles_process_stream [OF assms, of label xs "enter_source g"] s by simp
  then show ?thesis
    using settles_flushLookup [OF assms, of label s] s
    by (simp add: processEntries_unfold [of svc label "(xs, Done)" g s p])
qed

section \<open>A service that answers only what it is asked\<close>

lemma handed_since_logged:
  assumes "length (lookups g) \<le> length (lookups s)"
    and "lookups s' = lookups s @ map (\<lambda>b. \<lparr>batch = b, cache_then = c\<rparr>) bs"
  shows "handed_since g s' = handed_since g s @ concat bs"
    and "length (lookups g) \<le> length (lookups s')"
  using assms by (simp_all add: handed_since_def comp_def)

lemma handed_since_same:
  "lookups s' = lookups s \<Longrightarrow> handed_since g s' = handed_since g s"
  by (simp add: handed_since_def)

lemma in_sink_lines:
  "i \<in> set chunk \<Longrightarrow> m i = Some st \<Longrightarrow>
   sink_line label st \<in> set (List.map_filter (\<lambda>i. map_option (sink_line label) (m i)) chunk)"
  by (force simp: List.map_filter_def)

lemma requested_inv_enter: "requested_inv g label (enter_source g)"
  by (simp add: requested_inv_def handed_since_def enter_source_frame)

lemma requested_inv_flush:
  assumes inv: "requested_inv g label s"
    and ar: "answers_requested svc"
    and len: "length (lookups g) \<le> length (lookups s)"
  shows "requested_inv g label (fst (flushLookup svc label s)) \<and>
         length (lookups g) \<le> length (lookups (fst (flushLookup svc label s)))"
proof (cases "pendingLookup s = []")
  case True
  then show ?thesis
    using inv len by (simp add: flushLookup_empty)
next
  case False
  let ?s' = "fst (flushLookup svc label s)"
  from inv have
    frame: "\<forall>x. x \<notin> set (handed_since g s) \<longrightarrow> statusCache s x = statusCache g x" and
    sink: "\<forall>x \<in> seenIds s. \<forall>st. statusCache s x = Some st \<longrightarrow>
        sink_line label st \<in> set (rotectorWriter s)"
    unfolding requested_inv_def by simp_all
  have h: "handed_since g ?s' = handed_since g s @ pendingLookup s"
    and l: "length (lookups g) \<le> length (lookups ?s')"
    using handed_since_logged [OF len flushLookup_log(1) [OF False, of svc label]]
    by (simp_all add: concat_batches_from)
  have seen: "seenIds ?s' = seenIds s"
    using flushLookup_log(3) [OF False, of svc label] .
  from flushLookup_cases [OF False, of svc label] consider
    (pending) "statusCache ?s' = statusCache s" "rotectorWriter ?s' = rotectorWriter s"
  | (resolved) m where
      "snd (checkLotsOfUsers (fst (svc (calls s))) (snd (svc (calls s))) (pendingLookup s)) =
         Some (Inr m)"
      "statusCache ?s' = statusCache s ++ m"
      "rotectorWriter ?s' = rotectorWriter s @
         List.map_filter (\<lambda>i. map_option (sink_line label) (m i)) (pendingLookup s)"
    by blast
  then have "requested_inv g label ?s'"
  proof cases
    case pending
    show ?thesis
      unfolding requested_inv_def h seen pending using frame sink by simp
  next
    case resolved
    have dm: "dom m \<subseteq> set (pendingLookup s)"
      using answers_requested_dom [OF ar resolved(1)] .
    have 1: "statusCache ?s' x = statusCache g x"
      if "x \<notin> set (handed_since g s @ pendingLookup s)" for x
    proof -
      have "m x = None"
        using that dm by auto
      then show ?thesis
        using that frame by (simp add: resolved(2) map_add_def)
    qed
    have 2: "sink_line label st \<in> set (rotectorWriter ?s')"
      if "x \<in> seenIds s" "statusCache ?s' x = Some st" for x st
    proof (cases "m x")
      case None
      then have "statusCache s x = Some st"
        using that(2) by (simp add: resolved(2) map_add_def)
      then show ?thesis
        using sink that(1) by (simp add: resolved(3))
    next
      case (Some st')
      then have "st' = st" "x \<in> set (pendingLookup s)"
        using that(2) dm by (auto simp: resolved(2))
      then show ?thesis
        using in_sink_lines [of x "pendingLookup s" m st label] Some by (simp add: resolved(3))
    qed
    show ?thesis
      unfolding requested_inv_def h seen using 1 2 by blast
  qed
  then show ?thesis
    using l by simp
qed

lemma requested_inv_step:
  assumes inv: "requested_inv g label s"
    and ar: "answers_requested svc"
    and len: "length (lookups g) \<le> length (lookups s)"
    and step: "process_entry svc label x s = (s', p)"
  shows "requested_inv g label s' \<and> length (lookups g) \<le> length (lookups s')"
proof (cases "x \<in> seenIds s")
  case True
  then have "s' = s\<lparr>totalCollected := totalCollected s + 1\<rparr>"
    using step by (simp add: process_entry_def Let_def)
  then show ?thesis
    using inv len by (simp add: requested_inv_def handed_since_def)
next
  case unseen: False
  from inv have
    frame: "\<forall>x. x \<notin> set (handed_since g s) \<longrightarrow> statusCache s x = statusCache g x" and
    sink: "\<forall>x \<in> seenIds s. \<forall>st. statusCache s x = Some st \<longrightarrow>
        sink_line label st \<in> set (rotectorWriter s)"
    unfolding requested_inv_def by simp_all
  show ?thesis
  proof (cases "statusCache s x")
    case (Some cached)
    then have s': "s' = writeStatus label cached
        (s\<lparr>totalCollected := totalCollected s + 1, seenIds := insert x (seenIds s),
           uniqueUsers := uniqueUsers s + 1\<rparr>)"
      using step unseen by (simp add: process_entry_def Let_def)
    have "requested_inv g label s'"
      unfolding requested_inv_def s' handed_since_def
      using frame sink Some by (auto simp: writeStatus_frame handed_since_def)
    then show ?thesis
      using len by (simp add: s' writeStatus_frame)
  next
    case None
    let ?s3 = "s\<lparr>totalCollected := totalCollected s + 1,
      seenIds := insert x (seenIds s), uniqueUsers := uniqueUsers s + 1,
      pendingLookup := pendingLookup s @ [x]\<rparr>"
    have inv3: "requested_inv g label ?s3"
      unfolding requested_inv_def handed_since_def
      using frame sink None by (auto simp: handed_since_def)
    have len3: "length (lookups g) \<le> length (lookups ?s3)"
      using len by simp
    show ?thesis
    proof (cases "LOOKUP_BATCH_SIZE \<le> Suc (length (pendingLookup s))")
      case True
      then have "flushLookup svc label ?s3 = (s', p)"
        using step unseen None by (simp add: process_entry_def Let_def)
      then have "s' = fst (flushLookup svc label ?s3)"
        by simp
      then show ?thesis
        using requested_inv_flush [OF inv3 ar len3] by simp
    next
      case False
      then have "s' = ?s3"
        using step unseen None by (simp add: process_entry_def Let_def)
      then show ?thesis
        using inv3 len3 by simp
    qed
  qed
qed

lemma requested_inv_stream:
  "requested_inv g label s \<Longrightarrow> answers_requested svc \<Longrightarrow>
   length (lookups g) \<le> length (lookups s) \<Longrightarrow> process_stream svc label xs s = (s', p) \<Longrightarrow>
   requested_inv g label s' \<and> length (lookups g) \<le> length (lookups s')"
proof (induction xs arbitrary: s)
  case Nil
  then show ?case by simp
next
  case (Cons x xs)
  obtain s1 p1 where s1: "process_entry svc label x s = (s1, p1)"
    by (cases "process_entry svc label x s")
  have inv1: "requested_inv g label s1" "length (lookups g) \<le> length (lookups s1)"
    using requested_inv_step [OF Cons.prems(1,2,3) s1] by simp_all
  show ?case
  proof (cases "p1 = Resolved")
    case True
    then have "process_stream svc label xs s1 = (s', p)"
      using Cons.prems(4) unfolding process_stream_Cons [OF s1] by simp
    from Cons.IH [OF inv1(1) Cons.prems(2) inv1(2) this] show ?thesis .
  next
    case False
    then have "s' = s1"
      using Cons.prems(4) unfolding process_stream_Cons [OF s1] by simp
    then show ?thesis
      using inv1 by simp
  qed
qed

text \<open>
  With a service that answers only what it is asked, the invariant holds wherever a
  source stops.
\<close>

lemma processEntries_requested:
  assumes ar: "answers_requested svc"
    and run: "processEntries svc label entryStream g = (s', p)"
  shows "requested_inv g label s'"
proof -
  obtain s q where s: "process_stream svc label (fst entryStream) (enter_source g) = (s, q)"
    by (cases "process_stream svc label (fst entryStream) (enter_source g)")
  have inv: "requested_inv g label s" "length (lookups g) \<le> length (lookups s)"
    using requested_inv_stream [OF requested_inv_enter ar _ s] by (simp_all add: enter_source_frame)
  have "s' = s \<or> s' = fst (flushLookup svc label s)"
    using run unfolding processEntries_unfold [OF s]
    by (cases "snd entryStream") (auto split: if_splits)
  then show ?thesis
    using inv requested_inv_flush [OF inv(1) ar inv(2)] by blast
qed

text \<open>
  So the cache changes only at identifiers handed over, and an identifier that was not
  cached when a source is entered and is delivered by its stream is handed to the
  client when the source is processed to its end.
\<close>

lemma processEntries_hands_over:
  assumes ar: "answers_requested svc"
    and run: "processEntries svc label entryStream g = (s', Resolved)"
    and x: "x \<in> set (fst entryStream)" "x \<notin> dom (statusCache g)"
  shows "x \<in> set (handed_since g s')"
proof (rule ccontr)
  assume n: "x \<notin> set (handed_since g s')"
  from processEntries_lookups [OF run] obtain L unseen where
    L: "lookups s' = lookups g @ L" and
    b: "map batch L = batches_from 0 unseen" and
    cov: "set (fst entryStream) \<subseteq> set unseen \<union> dom (statusCache s')"
    by blast
  have h: "handed_since g s' = unseen"
    using handed_since_eq [OF L] b by (simp add: concat_batches_from)
  have "statusCache s' x = statusCache g x"
    using processEntries_requested [OF ar run] n unfolding requested_inv_def by blast
  then have "x \<notin> dom (statusCache s')"
    using x(2) by (simp add: domIff)
  then show False
    using cov x(1) n h by blast
qed


section \<open>A service that answers everything\<close>

lemma answers_allD:
  assumes "answers_all svc" "chunk \<noteq> []" "length chunk \<le> LOOKUP_BATCH_SIZE"
  shows "\<exists>m. snd (checkLotsOfUsers (fst (svc k)) (snd (svc k)) chunk) = Some (Inr m) \<and>
    set chunk \<subseteq> dom m"
  using assms unfolding answers_all_def by blast

lemma answered_flush:
  assumes all: "answers_all svc"
    and short: "length (pendingLookup s) \<le> LOOKUP_BATCH_SIZE"
    and a: "set (handed_since g s) \<subseteq> dom (statusCache s)"
    and len: "length (lookups g) \<le> length (lookups s)"
  shows "set (handed_since g (fst (flushLookup svc label s))) \<subseteq>
           dom (statusCache (fst (flushLookup svc label s))) \<and>
         length (lookups g) \<le> length (lookups (fst (flushLookup svc label s))) \<and>
         snd (flushLookup svc label s) = Resolved"
proof (cases "pendingLookup s = []")
  case True
  then show ?thesis
    using a len by (simp add: flushLookup_empty)
next
  case False
  let ?s' = "fst (flushLookup svc label s)"
  from answers_allD [OF all False short, of "calls s"] obtain m where
    m: "snd (checkLotsOfUsers (fst (svc (calls s))) (snd (svc (calls s))) (pendingLookup s)) =
        Some (Inr m)" and
    dm: "set (pendingLookup s) \<subseteq> dom m"
    by blast
  have h: "handed_since g ?s' = handed_since g s @ pendingLookup s"
    and l: "length (lookups g) \<le> length (lookups ?s')"
    using handed_since_logged [OF len flushLookup_log(1) [OF False, of svc label]]
    by (simp_all add: concat_batches_from)
  have c: "statusCache ?s' = statusCache s ++ m" and r: "snd (flushLookup svc label s) = Resolved"
    using flushLookup_result [of s svc m label] False m by simp_all
  have "set (handed_since g ?s') \<subseteq> dom (statusCache ?s')"
    unfolding h c using a dm by auto
  then show ?thesis
    using l r by simp
qed

lemma answered_step:
  assumes all: "answers_all svc"
    and short: "length (pendingLookup s) < LOOKUP_BATCH_SIZE"
    and a: "set (handed_since g s) \<subseteq> dom (statusCache s)"
    and len: "length (lookups g) \<le> length (lookups s)"
    and step: "process_entry svc label x s = (s', p)"
  shows "set (handed_since g s') \<subseteq> dom (statusCache s') \<and>
         length (lookups g) \<le> length (lookups s') \<and> p = Resolved"
proof -
  from process_entry_effect [OF step] consider
    (same) "p = Resolved" "lookups s' = lookups s" "statusCache s' = statusCache s"
  | (pending) "snd (checkLotsOfUsers (fst (svc (calls s))) (snd (svc (calls s)))
        (pendingLookup s @ [x])) = None"
  | (flush) m where "p = Resolved"
      "lookups s' = lookups s @ map (\<lambda>b. \<lparr>batch = b, cache_then = statusCache s\<rparr>)
         (batches_from 0 (pendingLookup s @ [x]))"
      "snd (checkLotsOfUsers (fst (svc (calls s))) (snd (svc (calls s)))
         (pendingLookup s @ [x])) = Some (Inr m)"
      "statusCache s' = statusCache s ++ m"
    by (elim conjE disjE exE) blast+
  then show ?thesis
  proof cases
    case same
    then show ?thesis
      using a len by (simp add: handed_since_def)
  next
    case pending
    have "pendingLookup s @ [x] \<noteq> []" "length (pendingLookup s @ [x]) \<le> LOOKUP_BATCH_SIZE"
      using short by simp_all
    from answers_allD [OF all this, of "calls s"] pending show ?thesis
      by simp
  next
    case flush
    have "pendingLookup s @ [x] \<noteq> []" "length (pendingLookup s @ [x]) \<le> LOOKUP_BATCH_SIZE"
      using short by simp_all
    from answers_allD [OF all this, of "calls s"] flush(3) have dm:
      "set (pendingLookup s @ [x]) \<subseteq> dom m"
      by simp
    have h: "handed_since g s' = handed_since g s @ pendingLookup s @ [x]"
      and l: "length (lookups g) \<le> length (lookups s')"
      using handed_since_logged [OF len flush(2)] by (simp_all add: concat_batches_from)
    have "set (handed_since g s') \<subseteq> dom (statusCache s')"
      unfolding h flush(4) using a dm by auto
    then show ?thesis
      using l flush(1) by simp
  qed
qed

lemma answered_stream:
  "answers_all svc \<Longrightarrow> source_inv g seen s \<Longrightarrow>
   set (handed_since g s) \<subseteq> dom (statusCache s) \<Longrightarrow>
   length (lookups g) \<le> length (lookups s) \<Longrightarrow>
   process_stream svc label xs s = (s', p) \<Longrightarrow>
   set (handed_since g s') \<subseteq> dom (statusCache s') \<and>
   length (lookups g) \<le> length (lookups s') \<and> p = Resolved \<and> source_inv g (seen @ xs) s'"
proof (induction xs arbitrary: seen s)
  case Nil
  then show ?case by simp
next
  case (Cons x xs)
  obtain s1 p1 where s1: "process_entry svc label x s = (s1, p1)"
    by (cases "process_entry svc label x s")
  have short: "length (pendingLookup s) < LOOKUP_BATCH_SIZE"
    using Cons.prems(2) by (simp add: source_inv_def)
  from answered_step [OF Cons.prems(1) short Cons.prems(3,4) s1] have
    a1: "set (handed_since g s1) \<subseteq> dom (statusCache s1)" and
    l1: "length (lookups g) \<le> length (lookups s1)" and
    p1: "p1 = Resolved"
    by simp_all
  have inv1: "source_inv g (seen @ [x]) s1"
    using source_inv_step [OF Cons.prems(2) s1] .
  have rest: "process_stream svc label xs s1 = (s', p)"
    using Cons.prems(5) p1 unfolding process_stream_Cons [OF s1] by simp
  from Cons.IH [OF Cons.prems(1) inv1 a1 l1 rest] show ?case
    by simp
qed

text \<open>
  With a service that answers everything it is asked, a source stops only where its
  stream does, and the identifiers handed over in it are cached when it stops.
\<close>

lemma processEntries_answered:
  assumes all: "answers_all svc"
    and run: "processEntries svc label entryStream g = (s', p)"
  shows "set (handed_since g s') \<subseteq> dom (statusCache s')"
proof -
  obtain s q where s: "process_stream svc label (fst entryStream) (enter_source g) = (s, q)"
    by (cases "process_stream svc label (fst entryStream) (enter_source g)")
  from answered_stream [OF all source_inv_enter _ _ s] have
    a: "set (handed_since g s) \<subseteq> dom (statusCache s)" and
    l: "length (lookups g) \<le> length (lookups s)" and
    inv: "source_inv g (fst entryStream) s"
    by (simp_all add: handed_since_def enter_source_frame)
  have short: "length (pendingLookup s) \<le> LOOKUP_BATCH_SIZE"
    using inv by (simp add: source_inv_def)
  have "s' = s \<or> s' = fst (flushLookup svc label s)"
    using run unfolding processEntries_unfold [OF s]
    by (cases "snd entryStream") (auto split: if_splits)
  then show ?thesis
    using a answered_flush [OF all short a l, of label] by blast
qed

lemma processSources_answered:
  "answers_all svc \<Longrightarrow>
   \<exists>L. lookups (last (g # fst (processSources svc sources g))) = lookups g @ L \<and>
     distinct (concat (map batch L)) \<and>
     set (concat (map batch L)) \<inter> dom (statusCache g) = {} \<and>
     set (concat (map batch L)) \<subseteq>
       dom (statusCache (last (g # fst (processSources svc sources g)))) \<and>
     dom (statusCache g) \<subseteq> dom (statusCache (last (g # fst (processSources svc sources g))))"
proof (induction sources arbitrary: g)
  case Nil
  then show ?case by simp
next
  case (Cons src sources)
  obtain label entryStream where src: "src = (label, entryStream)"
    by (cases src)
  obtain s p where s: "processEntries svc label entryStream g = (s, p)"
    by (cases "processEntries svc label entryStream g")
  from processEntries_lookups [OF s] obtain L0 unseen where
    u0: "lookups s = lookups g @ L0" and
    u1: "map batch L0 = batches_from 0 unseen" and
    u2: "distinct unseen" and
    u3: "set unseen \<subseteq> set (fst entryStream) - dom (statusCache g)" and
    u5: "dom (statusCache g) \<subseteq> dom (statusCache s)"
    by blast
  have c0: "concat (map batch L0) = unseen"
    using u1 by (simp add: concat_batches_from)
  have u6: "set unseen \<subseteq> dom (statusCache s)"
    using processEntries_answered [OF Cons.prems s] handed_since_eq [OF u0] c0 by simp
  show ?case
  proof (cases "p = Resolved")
    case False
    then have run: "fst (processSources svc (src # sources) g) = [s]"
      unfolding src processSources_Cons [OF s] by simp
    have fin: "last (g # [s]) = s"
      by simp
    have 3: "set (concat (map batch L0)) \<inter> dom (statusCache g) = {}"
      using u3 c0 by auto
    show ?thesis
      unfolding run fin using u0 u2 3 u6 u5 unfolding c0
      by (intro exI [of _ L0] conjI) (simp_all add: c0)
  next
    case True
    then have run: "fst (processSources svc (src # sources) g) =
        s # fst (processSources svc sources s)"
      unfolding src processSources_Cons [OF s] by simp
    let ?final = "last (s # fst (processSources svc sources s))"
    from Cons.IH [OF Cons.prems, of s] obtain L where
      l1: "lookups ?final = lookups s @ L" and
      l2: "distinct (concat (map batch L))" and
      l3: "set (concat (map batch L)) \<inter> dom (statusCache s) = {}" and
      l4: "set (concat (map batch L)) \<subseteq> dom (statusCache ?final)" and
      l5: "dom (statusCache s) \<subseteq> dom (statusCache ?final)"
      by blast
    have c: "concat (map batch (L0 @ L)) = unseen @ concat (map batch L)"
      using c0 by simp
    have 1: "lookups ?final = lookups g @ (L0 @ L)"
      using l1 u0 by simp
    have 2: "distinct (concat (map batch (L0 @ L)))"
      unfolding c using u2 l2 u6 l3 by auto
    have 3: "set (concat (map batch (L0 @ L))) \<inter> dom (statusCache g) = {}"
      unfolding c using u3 u5 l3 by auto
    have 4: "set (concat (map batch (L0 @ L))) \<subseteq> dom (statusCache ?final)"
      unfolding c using u6 l4 l5 by auto
    have 5: "dom (statusCache g) \<subseteq> dom (statusCache ?final)"
      using u5 l5 by blast
    have fin: "last (g # fst (processSources svc (src # sources) g)) = ?final"
      unfolding run by simp
    show ?thesis
      unfolding fin using 1 2 3 4 5 by (intro exI [of _ "L0 @ L"] conjI) assumption+
  qed
qed

section \<open>Streams of new identifiers\<close>

lemma batches_from_prefix:
  "\<forall>b \<in> set Ls. length b = BATCH_SIZE \<Longrightarrow>
   batches_from 0 (concat Ls @ rest) = Ls @ batches_from 0 rest"
proof (induction Ls)
  case Nil
  then show ?case by simp
next
  case (Cons b Ls)
  then show ?case
    by (simp add: batches_from_full)
qed

lemma fresh_inv_enter: "fresh_inv g [] (enter_source g)"
  by (simp add: fresh_inv_def enter_source_frame LOOKUP_BATCH_SIZE_def)

lemma fresh_inv_step:
  assumes inv: "fresh_inv g seen s"
    and new: "x \<notin> set seen" "x \<notin> dom (statusCache g)"
    and ar: "answers_requested svc"
    and step: "process_entry svc label x s = (s', p)"
  shows "fresh_inv g (seen @ [x]) s'"
proof -
  from inv obtain L where
    seen: "seenIds s = set seen" and
    cache: "dom (statusCache s) \<subseteq> dom (statusCache g) \<union> set seen" and
    len: "length (pendingLookup s) < LOOKUP_BATCH_SIZE" and
    L: "lookups s = lookups g @ L" and
    full: "\<forall>l \<in> set L. length (batch l) = LOOKUP_BATCH_SIZE" and
    all: "concat (map batch L) @ pendingLookup s = seen"
    unfolding fresh_inv_def by blast
  have unseen: "x \<notin> seenIds s" "x \<notin> dom (statusCache s)"
    using new seen cache by auto
  from process_entry_effect [OF step] have seen': "seenIds s' = set (seen @ [x])"
    using seen by simp
  from process_entry_effect [OF step] unseen consider
    (push) "Suc (length (pendingLookup s)) < LOOKUP_BATCH_SIZE"
      "lookups s' = lookups s" "pendingLookup s' = pendingLookup s @ [x]"
      "statusCache s' = statusCache s"
  | (flush) "LOOKUP_BATCH_SIZE \<le> Suc (length (pendingLookup s))"
      "lookups s' = lookups s @ map (\<lambda>b. \<lparr>batch = b, cache_then = statusCache s\<rparr>)
         (batches_from 0 (pendingLookup s @ [x]))"
      "pendingLookup s' = []"
      "statusCache s' = statusCache s \<or>
       (\<exists>m. snd (checkLotsOfUsers (fst (svc (calls s))) (snd (svc (calls s)))
          (pendingLookup s @ [x])) = Some (Inr m) \<and> statusCache s' = statusCache s ++ m)"
    by blast
  then show ?thesis
  proof cases
    case push
    have 1: "concat (map batch L) @ pendingLookup s @ [x] = seen @ [x]"
      using all by simp
    have 2: "dom (statusCache s) \<subseteq> dom (statusCache g) \<union> set (seen @ [x])"
      using cache by auto
    have 3: "length (pendingLookup s @ [x]) < LOOKUP_BATCH_SIZE"
      using push(1) by simp
    show ?thesis
      unfolding fresh_inv_def push(2-4) using seen' 2 3 L full 1
      by (intro conjI exI [of _ L]) assumption+
  next
    case flush
    have n: "length (pendingLookup s @ [x]) = LOOKUP_BATCH_SIZE"
      using flush(1) len by simp
    then have b: "batches_from 0 (pendingLookup s @ [x]) = [pendingLookup s @ [x]]"
      by (simp add: batches_from_single LOOKUP_BATCH_SIZE_eq)
    let ?L = "L @ [\<lparr>batch = pendingLookup s @ [x], cache_then = statusCache s\<rparr>]"
    have 1: "lookups s' = lookups g @ ?L"
      using flush(2) L b by simp
    have 2: "\<forall>l \<in> set ?L. length (batch l) = LOOKUP_BATCH_SIZE"
      using full n by simp
    have 3: "concat (map batch ?L) @ pendingLookup s' = seen @ [x]"
      using all flush(3) by simp
    have sub: "set (pendingLookup s) \<subseteq> set seen"
      using all by auto
    have 4: "dom (statusCache s') \<subseteq> dom (statusCache g) \<union> set (seen @ [x])"
      using flush(4)
    proof (elim disjE exE conjE)
      assume "statusCache s' = statusCache s"
      then show ?thesis
        using cache by auto
    next
      fix m
      assume m: "snd (checkLotsOfUsers (fst (svc (calls s))) (snd (svc (calls s)))
          (pendingLookup s @ [x])) = Some (Inr m)" and c: "statusCache s' = statusCache s ++ m"
      have "dom m \<subseteq> set (pendingLookup s @ [x])"
        using answers_requested_dom [OF ar m] .
      then show ?thesis
        unfolding c using cache sub by auto
    qed
    have 5: "length (pendingLookup s') < LOOKUP_BATCH_SIZE"
      using flush(3) by (simp add: LOOKUP_BATCH_SIZE_def)
    show ?thesis
      unfolding fresh_inv_def using seen' 4 5 1 2 3
      by (intro conjI exI [of _ ?L]) assumption+
  qed
qed

lemma fresh_inv_stream:
  "fresh_inv g seen s \<Longrightarrow> distinct (seen @ xs) \<Longrightarrow> set xs \<inter> dom (statusCache g) = {} \<Longrightarrow>
   answers_requested svc \<Longrightarrow> process_stream svc label xs s = (s', p) \<Longrightarrow>
   \<exists>k \<le> length xs. fresh_inv g (seen @ take k xs) s' \<and> (p = Resolved \<longrightarrow> k = length xs)"
proof (induction xs arbitrary: seen s)
  case Nil
  then show ?case by simp
next
  case (Cons x xs)
  obtain s1 p1 where s1: "process_entry svc label x s = (s1, p1)"
    by (cases "process_entry svc label x s")
  have new: "x \<notin> set seen" "x \<notin> dom (statusCache g)"
    using Cons.prems(2,3) by auto
  have inv1: "fresh_inv g (seen @ [x]) s1"
    using fresh_inv_step [OF Cons.prems(1) new Cons.prems(4) s1] .
  show ?case
  proof (cases "p1 = Resolved")
    case True
    then have rest: "process_stream svc label xs s1 = (s', p)"
      using Cons.prems(5) unfolding process_stream_Cons [OF s1] by simp
    have d: "distinct ((seen @ [x]) @ xs)" "set xs \<inter> dom (statusCache g) = {}"
      using Cons.prems(2,3) by auto
    from Cons.IH [OF inv1 d Cons.prems(4) rest] obtain k where
      "k \<le> length xs" "fresh_inv g ((seen @ [x]) @ take k xs) s'" "p = Resolved \<longrightarrow> k = length xs"
      by blast
    then have "Suc k \<le> length (x # xs) \<and> fresh_inv g (seen @ take (Suc k) (x # xs)) s' \<and>
        (p = Resolved \<longrightarrow> Suc k = length (x # xs))"
      by simp
    then show ?thesis
      by blast
  next
    case False
    then have "s' = s1" "p = p1"
      using Cons.prems(5) unfolding process_stream_Cons [OF s1] by simp_all
    then have "Suc 0 \<le> length (x # xs) \<and> fresh_inv g (seen @ take (Suc 0) (x # xs)) s' \<and>
        (p = Resolved \<longrightarrow> Suc 0 = length (x # xs))"
      using inv1 False by simp
    then show ?thesis
      by blast
  qed
qed

text \<open>
  The lookups of a stream of identifiers that are all new: where the source stops, the
  first batches of the stream have been handed over, and all of them when the source
  has been processed to its end.
\<close>

lemma processEntries_fresh:
  assumes d: "distinct (fst entryStream)"
    and c: "set (fst entryStream) \<inter> dom (statusCache g) = {}"
    and ar: "answers_requested svc"
    and run: "processEntries svc label entryStream g = (s', p)"
  shows "\<exists>L n. lookups s' = lookups g @ L \<and>
    map batch L = take n (batches_from 0 (fst entryStream)) \<and>
    (p = Resolved \<longrightarrow> map batch L = batches_from 0 (fst entryStream))"
proof -
  let ?xs = "fst entryStream"
  obtain s q where s: "process_stream svc label ?xs (enter_source g) = (s, q)"
    by (cases "process_stream svc label ?xs (enter_source g)")
  from fresh_inv_stream [OF fresh_inv_enter _ c ar s] d obtain k where
    k: "k \<le> length ?xs" and
    inv: "fresh_inv g (take k ?xs) s" and
    all: "q = Resolved \<longrightarrow> k = length ?xs"
    by auto
  from inv obtain L where
    len: "length (pendingLookup s) < LOOKUP_BATCH_SIZE" and
    L: "lookups s = lookups g @ L" and
    full: "\<forall>l \<in> set L. length (batch l) = LOOKUP_BATCH_SIZE" and
    seen: "concat (map batch L) @ pendingLookup s = take k ?xs"
    unfolding fresh_inv_def by blast
  have fullb: "\<forall>b \<in> set (map batch L). length b = BATCH_SIZE"
    using full by (simp add: LOOKUP_BATCH_SIZE_eq)
  have xs: "?xs = concat (map batch L) @ (pendingLookup s @ drop k ?xs)"
    using seen append_take_drop_id [of k ?xs] by (metis append.assoc)
  have pre: "batches_from 0 ?xs = map batch L @ batches_from 0 (pendingLookup s @ drop k ?xs)"
    using batches_from_prefix [OF fullb, of "pendingLookup s @ drop k ?xs"] xs by simp
  show ?thesis
  proof (cases "q = Resolved \<and> snd entryStream = Done")
    case False
    have "s' = s \<and> p \<noteq> Resolved"
    proof (cases "q = Resolved")
      case True
      then show ?thesis
        using False run by (cases "snd entryStream") (auto simp: processEntries_unfold [OF s])
    next
      case False
      then show ?thesis
        using run by (simp add: processEntries_unfold [OF s])
    qed
    moreover have "map batch L = take (length L) (batches_from 0 ?xs)"
      unfolding pre by simp
    ultimately show ?thesis
      using L by (intro exI [of _ L] exI [of _ "length L"] conjI impI) simp_all
  next
    case True
    then have fl: "flushLookup svc label s = (s', p)"
      using run by (simp add: processEntries_unfold [OF s])
    have kk: "drop k ?xs = []"
      using all True by simp
    show ?thesis
    proof (cases "pendingLookup s = []")
      case True
      then have "s' = s"
        using fl by (simp add: flushLookup_empty)
      moreover have mb: "map batch L = batches_from 0 ?xs"
        unfolding pre using True kk by (simp add: batches_from_beyond)
      moreover have "map batch L = take (length L) (batches_from 0 ?xs)"
        using mb by (metis length_map order_refl take_all)
      ultimately show ?thesis
        using L by (intro exI [of _ L] exI [of _ "length L"] conjI impI) simp_all
    next
      case False
      let ?L = "L @ [\<lparr>batch = pendingLookup s, cache_then = statusCache s\<rparr>]"
      have b: "batches_from 0 (pendingLookup s) = [pendingLookup s]"
        using False len by (simp add: batches_from_single LOOKUP_BATCH_SIZE_eq)
      have "lookups s' = lookups s @ [\<lparr>batch = pendingLookup s, cache_then = statusCache s\<rparr>]"
        using flushLookup_log(1) [OF False, of svc label] fl b by simp
      then have 1: "lookups s' = lookups g @ ?L"
        using L by simp
      have 2: "map batch ?L = batches_from 0 ?xs"
        unfolding pre using kk b by simp
      have 3: "map batch ?L = take (length ?L) (batches_from 0 ?xs)"
        using 2 by (metis length_map order_refl take_all)
      show ?thesis
        using 1 2 3 by (intro exI [of _ ?L] exI [of _ "length ?L"] conjI impI) assumption+
    qed
  qed
qed

section \<open>What stays as a stream goes on\<close>


lemma processSources_keeps_cache:
  "dom (statusCache g) \<subseteq> dom (statusCache (last (g # fst (processSources svc sources g))))"
  using processSources_lookups [of g svc sources] by blast







section \<open>The first entry of a stream\<close>









section \<open>Evaluating concrete runs\<close>

lemmas run_simps =
  processEntries_def process_entry_def flushLookup_def checkLotsOfUsers_def outcomes_of_def
  checkMultipleUsers_def Promise_all_def task_def assign_def batches_from_single
  enter_source_def start_of_run_def Let_def record_lookup_def persistCache_def
  LOOKUP_BATCH_SIZE_def BATCH_SIZE_def response_ok_def read_result_def ok_response_def
  writeStatus_def sink_line_def handed_since_def

lemma always_settles_knowing: "always_settles knowing_service"
  by (simp add: always_settles_def knowing_service_def checkMultipleUsers_def ok_response_def
      response_ok_def read_result_def)

lemma answers_requested_knowing: "answers_requested knowing_service"
  by (auto simp: answers_requested_def knowing_service_def ok_response_def split: if_splits)

lemma answers_requested_silent: "answers_requested silent_service"
  by (auto simp: answers_requested_def silent_service_def ok_response_def)

lemma answers_requested_recovering: "answers_requested recovering_service"
  by (auto simp: answers_requested_def recovering_service_def ok_response_def
      failure_envelope_def split: if_splits)

lemma answers_all_knowing: "answers_all knowing_service"
proof -
  have "snd (checkLotsOfUsers [0]
      (\<lambda>i b. [ok_response (\<lambda>u. if u \<in> set b then Some (safe_status u) else None)]) chunk) =
      Some (Inr (\<lambda>u. if u \<in> set chunk then Some (safe_status u) else None))"
    if "chunk \<noteq> []" "length chunk \<le> LOOKUP_BATCH_SIZE" for chunk
    using that
    by (simp add: checkLotsOfUsers_eq batches_from_single LOOKUP_BATCH_SIZE_eq outcomes_of_def
        checkMultipleUsers_def ok_response_def response_ok_def read_result_def assign_def
        fun_eq_iff)
  then show ?thesis
    by (auto simp: answers_all_def knowing_service_def split: if_splits)
qed

lemma batches_ids51: "batches_from 0 ids51 = [map int [0..<50], [50]]"
proof -
  have 1: "batches_from 0 ids51 = take 50 ids51 # batches_from 50 ids51"
    by (subst batches_from.simps) (simp add: BATCH_SIZE_def ids51_def)
  have 2: "batches_from 50 ids51 = take 50 (drop 50 ids51) # batches_from 100 ids51"
    by (subst batches_from.simps) (simp add: BATCH_SIZE_def ids51_def)
  have 3: "batches_from 100 ids51 = []"
    by (simp add: batches_from_beyond ids51_def)
  have 4: "take 50 ids51 = map int [0..<50]"
    by (simp add: ids51_def take_map)
  have 5: "take 50 (drop 50 ids51) = [50]"
    by (simp add: ids51_def drop_map)
  show ?thesis
    by (simp only: 1 2 3 4 5)
qed


text \<open>Every request of a lookup's calls carries the identifiers its call was made for.\<close>

lemma requests_of_calls:
  assumes "evs \<in> set (fst (checkLotsOfUsers completion net ids))" "Fetch r \<in> set evs"
  shows "r = userIds_of evs"
proof -
  let ?bs = "batches_from 0 ids"
  from assms(1) obtain i where i: "i < length ?bs" and
    evs: "evs = fst (outcomes_of net ?bs ! i)"
    by (auto simp: checkLotsOfUsers_eq in_set_conv_nth outcomes_of_length)
  have e: "evs = fst (checkMultipleUsers_loop 0 (?bs ! i) (net i (?bs ! i)))"
    using evs outcomes_of_nth [OF i, of net] by (simp add: checkMultipleUsers_def)
  show ?thesis
    using fetches_of_loop [of r 0 "?bs ! i" "net i (?bs ! i)"] assms(2)
    unfolding e userIds_of_loop by simp
qed

section \<open>Backoff\<close>

text \<open>
  Claim C6, as stated: the delay is \<open>min(maxDelay, baseDelay * 2^attempt)\<close> and the
  first retry (attempt 1) waits exactly \<open>baseDelay\<close>. No delay function of the code does
  both. \<^verbatim>\<open>retryDelayMs\<close> of the Rotector client waits 1000 ms at attempt 1, where
  the formula gives 2000; \<^verbatim>\<open>backoffMs\<close> of the scrapers follows the formula and
  waits 2000 ms at attempt 1, twice \<open>baseDelay\<close>.
\<close>

theorem C6_backoff_counterexample:
  "retryDelayMs 1 \<noteq> spec_delay 1 \<and> backoffMs 1 \<noteq> BASE_RETRY_DELAY_MS"
  by (simp add: retryDelayMs_def backoffMs_def spec_delay_def BASE_RETRY_DELAY_MS_def
      MAX_RETRY_DELAY_MS_def)

text \<open>
  Claim C6, amended: the Rotector client's delay is
  \<open>min(maxDelay, baseDelay * 2^(attempt - 1))\<close>, so that its first retry waits exactly
  \<open>baseDelay\<close>; the scrapers' delay is \<open>min(maxDelay, baseDelay * 2^attempt)\<close>, so
  that their first retry waits twice \<open>baseDelay\<close>. In both callers the first retry has
  attempt 1: after one failed request \<^verbatim>\<open>checkMultipleUsers\<close> sleeps
  \<open>baseDelay\<close> and \<^verbatim>\<open>fetchFriendsPage\<close> waits twice that.
\<close>

theorem C6_backoff_policy:
  "retryDelayMs attempt = spec_delay (attempt - 1) \<and>
   backoffMs attempt = spec_delay attempt \<and>
   retryDelayMs 1 = BASE_RETRY_DELAY_MS \<and>
   backoffMs 1 = 2 * BASE_RETRY_DELAY_MS \<and>
   fst (checkMultipleUsers ids [FetchRejected m]) =
     [WaitForGlobal429, Fetch ids, Sleep BASE_RETRY_DELAY_MS, WaitForGlobal429, Fetch ids] \<and>
   waits (fetchFriendsPage 0 [FriendsRejected m]) = [2 * BASE_RETRY_DELAY_MS]"
  by (simp add: retryDelayMs_def backoffMs_def spec_delay_def BASE_RETRY_DELAY_MS_def
      MAX_RETRY_DELAY_MS_def checkMultipleUsers_def MAX_HTTP_RETRIES_def after_def waited_def)

section \<open>Flag levels outside 0 to 6\<close>

text \<open>
  Claim C8, as stated: a flag level outside 0 to 6 raises a classification error and is
  never turned into a placeholder label. \<^verbatim>\<open>writeStatus\<close> labels a result with
  \<^verbatim>\<open>flagTypeToString\<close>, which gives level 7 the label \<open>UNKNOWN\<close>, and the
  record is written with it.
\<close>

theorem C8_flag_counterexample:
  "flagTypeToString 7 = ''UNKNOWN'' \<and>
   rotectorWriter (writeStatus ''friends:1'' status7 start_of_run) =
     [\<lparr>source_label = ''friends:1'', user_id = 42, user_flagType = 7,
       flagLabel = ''UNKNOWN'', user_status = status7\<rparr>]"
  by (simp add: flagTypeToString_def UserFlagStatus_name_def writeStatus_def Let_def
      sink_line_def status7_def start_of_run_def)

text \<open>
  Claim C8, amended: for every flag level outside 0 to 6, \<^verbatim>\<open>flagTypeToEnum\<close>
  raises an unknown-flag-type error; \<^verbatim>\<open>flagTypeToString\<close> gives it the placeholder
  label \<open>UNKNOWN\<close>, and the pipeline's \<^verbatim>\<open>writeStatus\<close> appends the record under
  that label.
\<close>

theorem C8_flag_out_of_range:
  assumes "flagType st < 0 \<or> 6 < flagType st"
  shows "flagTypeToEnum (flagType st) = Inl (UnknownFlagType (flagType st)) \<and>
         flagTypeToString (flagType st) = ''UNKNOWN'' \<and>
         rotectorWriter (writeStatus label st s) = rotectorWriter s @
           [\<lparr>source_label = label, user_id = status_id st, user_flagType = flagType st,
             flagLabel = ''UNKNOWN'', user_status = st\<rparr>]"
  using assms
  by (auto simp: flagTypeToEnum_def flagTypeToString_def UserFlagStatus_name_def
      writeStatus_def Let_def sink_line_def)

theorem C8_flag_out_of_range_witness:
  "flagTypeToEnum (flagType status7) = Inl (UnknownFlagType 7) \<and>
   flagTypeToString (flagType status7) = ''UNKNOWN'' \<and>
   rotectorWriter (writeStatus ''friends:1'' status7 start_of_run) =
     [\<lparr>source_label = ''friends:1'', user_id = 42, user_flagType = 7,
       flagLabel = ''UNKNOWN'', user_status = status7\<rparr>]"
  using C8_flag_out_of_range [of status7 "''friends:1''" start_of_run]
  by (simp add: status7_def start_of_run_def)

section \<open>The friends stream yields its subject first\<close>






section \<open>Lookups of a run\<close>

text \<open>
  Claim C1, as stated: no identifier is handed to the Verification Client more than once
  in a run, also when it appears in two sources. The run cache holds results only, so an
  identifier whose lookup returned no entry is looked up again by the next source that
  delivers it: with a service that has no entry for user 7, two sources that both
  deliver 7 look it up twice. The run below is processed to its end; the log of each
  source's last state is shown.
\<close>

theorem C1_lookups_counterexample:
  "map (\<lambda>s. map batch (lookups s))
     (fst (processSources silent_service
        [(''friends:1'', [7], Done), (''friends:2'', [7], Done)] start_of_run)) =
     [[[7]], [[7], [7]]] \<and>
   snd (processSources silent_service
        [(''friends:1'', [7], Done), (''friends:2'', [7], Done)] start_of_run) = Resolved"
  by (simp add: run_simps silent_service_def)

text \<open>
  Claim C1, amended. In every run, however it ends (processed to its end, ended by an
  error, or hanging), with \<open>L\<close> the calls of \<^verbatim>\<open>checkMultipleUsers\<close> made from the
  state \<open>g\<close> on:

  \<^item> an identifier is handed to the Verification Client at most once for each source
    whose stream delivers it, so at most once within one source, however often it
    repeats there;
  \<^item> no identifier is handed over while it has an entry in the run cache: every batch
    is disjoint from the keys the cache has when the call for it is made;
  \<^item> with a service that answers every lookup with an entry for each identifier asked,
    no identifier is handed over twice in the run.

  Nothing but a cache entry keeps an identifier from being looked up: given a service
  that returns entries only for the identifiers it is asked, an identifier that has
  no cache entry when a source is entered is handed to the client in that source
  whenever the stream delivers it and the source is processed to its end. So an
  identifier whose lookup returned no entry is looked up again by such a source.
\<close>

theorem C1_lookups:
  "(\<exists>L. lookups (last (g # fst (processSources svc sources g))) = lookups g @ L \<and>
      (\<forall>x. count_list (concat (map batch L)) x \<le>
             length (filter (\<lambda>src. x \<in> set (fst (snd src))) sources)) \<and>
      (\<forall>l \<in> set L. set (batch l) \<inter> dom (cache_then l) = {}) \<and>
      (answers_all svc \<longrightarrow> distinct (concat (map batch L)))) \<and>
   (answers_requested svc \<and> x \<in> set (fst entryStream) \<and> x \<notin> dom (statusCache g') \<and>
    processEntries svc label entryStream g' = (s', Resolved) \<longrightarrow>
      x \<in> set (handed_since g' s'))"
proof -
  from processSources_lookups [of g svc sources] obtain L where
    L: "lookups (last (g # fst (processSources svc sources g))) = lookups g @ L"
      "\<forall>x. count_list (concat (map batch L)) x \<le>
             length (filter (\<lambda>src. x \<in> set (fst (snd src))) sources)"
      "\<forall>l \<in> set L. set (batch l) \<inter> dom (cache_then l) = {}"
    by blast
  have "distinct (concat (map batch L))" if "answers_all svc"
    using processSources_answered [OF that, of g sources] L(1) by auto
  with L have run: "\<exists>L. lookups (last (g # fst (processSources svc sources g))) = lookups g @ L \<and>
      (\<forall>x. count_list (concat (map batch L)) x \<le>
             length (filter (\<lambda>src. x \<in> set (fst (snd src))) sources)) \<and>
      (\<forall>l \<in> set L. set (batch l) \<inter> dom (cache_then l) = {}) \<and>
      (answers_all svc \<longrightarrow> distinct (concat (map batch L)))"
    by blast
  have again: "x \<in> set (handed_since g' s')"
    if "answers_requested svc" "x \<in> set (fst entryStream)" "x \<notin> dom (statusCache g')"
      "processEntries svc label entryStream g' = (s', Resolved)"
    using processEntries_hands_over [OF that(1,4,2,3)] .
  show ?thesis
    using run again by blast
qed

text \<open>
  An instance: user 7 appears twice in the first source and once in the second. With a
  service that knows every user, 7 is looked up once; with a service that knows no
  user, a source that delivers 7 hands it over.
\<close>

theorem C1_lookups_witness:
  "(\<exists>L. lookups (last (start_of_run # fst (processSources knowing_service
          [(''friends:1'', [7, 7, 8], Done), (''friends:2'', [7, 9], Done)] start_of_run))) =
        lookups start_of_run @ L \<and>
      count_list (concat (map batch L)) 7 \<le> 2 \<and> distinct (concat (map batch L))) \<and>
   map (\<lambda>s. map batch (lookups s)) (fst (processSources knowing_service
     [(''friends:1'', [7, 7, 8], Done), (''friends:2'', [7, 9], Done)] start_of_run)) =
     [[[7, 8]], [[7, 8], [9]]] \<and>
   7 \<in> set (handed_since start_of_run
     (fst (processEntries silent_service ''friends:2'' ([7], Done) start_of_run)))"
proof -
  have l: "map (\<lambda>s. map batch (lookups s)) (fst (processSources knowing_service
     [(''friends:1'', [7, 7, 8], Done), (''friends:2'', [7, 9], Done)] start_of_run)) =
     [[[7, 8]], [[7, 8], [9]]]"
    by (simp add: run_simps knowing_service_def)
  obtain s' where s': "processEntries silent_service ''friends:2'' ([7], Done) start_of_run =
      (s', Resolved)"
    by (simp add: run_simps silent_service_def)
  have c: "7 \<notin> dom (statusCache start_of_run)"
    by (simp add: start_of_run_def)
  note inst = C1_lookups [of start_of_run knowing_service
      "[(''friends:1'', [7, 7, 8], Done), (''friends:2'', [7, 9], Done)]"]
  from inst [of 7 "([7], Done)" start_of_run "''friends:2''" s']
    answers_all_knowing obtain L where
    "lookups (last (start_of_run # fst (processSources knowing_service
          [(''friends:1'', [7, 7, 8], Done), (''friends:2'', [7, 9], Done)] start_of_run))) =
        lookups start_of_run @ L"
    "count_list (concat (map batch L)) 7 \<le> length (filter (\<lambda>src. 7 \<in> set (fst (snd src)))
       [(''friends:1'', [7, 7, 8], Done), (''friends:2'', [7::int, 9], Done :: stream_end)])"
    "distinct (concat (map batch L))"
    by blast
  then have 1: "\<exists>L. lookups (last (start_of_run # fst (processSources knowing_service
          [(''friends:1'', [7, 7, 8], Done), (''friends:2'', [7, 9], Done)] start_of_run))) =
        lookups start_of_run @ L \<and>
      count_list (concat (map batch L)) 7 \<le> 2 \<and> distinct (concat (map batch L))"
    by auto
  have 2: "7 \<in> set (handed_since start_of_run s')"
    using C1_lookups [of start_of_run silent_service "[]" 7 "([7], Done)" start_of_run
        "''friends:2''" s'] answers_requested_silent s' c
    by simp
  show ?thesis
    using 1 l 2 s' by simp
qed

section \<open>Cached identifiers\<close>



section \<open>Rate-limit responses\<close>

text \<open>
  Claim C4, as stated: the cooldown is the server's retry hint plus the safety margin,
  the default standing in when the hint is absent. A hint of 0 seconds is present, and
  hint plus margin would be 2500 ms; the code takes the default of 10 seconds for
  it and trips the rate gate for 12500 ms.
\<close>

theorem C4_rate_limit_counterexample:
  "fst (checkMultipleUsers [1] [Response 429 (Numeric 0) None]) =
     [WaitForGlobal429, Fetch [1], ActivateGlobal429 12500, WaitForGlobal429, Fetch [1]] \<and>
   (12500::rat) \<noteq> 0 * 1000 + 2500"
  by (simp add: checkMultipleUsers_def response_ok_def after_def cooldownMs_cases)

text \<open>
  Claim C4, amended: on a response with status 429 the loop goes on with its failure
  counter at zero, whatever it was, after tripping the rate gate for the cooldown: the
  retry hint in seconds times 1000 plus 2500 ms, where the default of 10 seconds stands
  for a hint that is absent, zero or not a number. A call that receives nothing but 429
  responses never fails: after each of them it trips the rate gate and issues the
  request again.
\<close>

theorem C4_rate_limit:
  "checkMultipleUsers_loop consecutiveFailures ids (Response 429 ra bd # rs) =
     after [WaitForGlobal429, Fetch ids, ActivateGlobal429 (cooldownMs ra)]
       (checkMultipleUsers_loop 0 ids rs) \<and>
   (r \<noteq> 0 \<longrightarrow> cooldownMs (Numeric r) = r * 1000 + 2500) \<and>
   cooldownMs Absent = 10 * 1000 + 2500 \<and>
   cooldownMs (Numeric 0) = 10 * 1000 + 2500 \<and>
   cooldownMs NotNumeric = 10 * 1000 + 2500 \<and>
   ((\<forall>x \<in> set rs. rate_limited x) \<longrightarrow>
      checkMultipleUsers ids rs =
        (concat (map (\<lambda>x. [WaitForGlobal429, Fetch ids,
                           ActivateGlobal429 (cooldownMs (retryAfter x))]) rs)
           @ [WaitForGlobal429, Fetch ids], None))"
  using loop_429_only [of rs 0 ids]
  by (simp add: loop_429_step cooldownMs_cases checkMultipleUsers_def
      del: checkMultipleUsers_loop.simps)

text \<open>
  An instance: a 429 with a hint of 3 seconds after five failures, and a call that is
  rate limited once.
\<close>

theorem C4_rate_limit_witness:
  "checkMultipleUsers_loop 5 [1] [Response 429 (Numeric 3) None, Response 429 Absent None] =
     after [WaitForGlobal429, Fetch [1], ActivateGlobal429 5500]
       (checkMultipleUsers_loop 0 [1] [Response 429 Absent None]) \<and>
   cooldownMs (Numeric 3) = 5500 \<and>
   checkMultipleUsers [1] [Response 429 Absent None] =
     ([WaitForGlobal429, Fetch [1], ActivateGlobal429 12500, WaitForGlobal429, Fetch [1]], None)"
  using C4_rate_limit [of 5 "[1]" "Numeric 3" None "[Response 429 Absent None]" 3]
  by (simp add: rate_limited_def cooldownMs_cases del: checkMultipleUsers_loop.simps)

section \<open>Failed batches\<close>





section \<open>The batch processor resolves with the merge\<close>

text \<open>
  Claim C9, as stated: \<^verbatim>\<open>checkLotsOfUsers\<close> always resolves. A batch that is
  answered 429 keeps retrying, so with a service that answers nothing else the call is
  still pending after any number of responses.
\<close>

theorem C9_checkLotsOfUsers_counterexample:
  "\<forall>n. snd (checkLotsOfUsers [0] (\<lambda>i b. replicate n (Response 429 Absent None)) [1]) = None"
proof
  fix n
  have b: "batches_from 0 [1] = [[1]]"
    by (simp add: batches_from_single BATCH_SIZE_def)
  show "snd (checkLotsOfUsers [0] (\<lambda>i b. replicate n (Response 429 Absent None)) [1]) = None"
    by (simp add: checkLotsOfUsers_eq b outcomes_of_def checkMultipleUsers_def
        loop_rate_limited_forever)
qed

text \<open>
  Claim C9, amended: \<^verbatim>\<open>checkLotsOfUsers\<close> never rejects. It is pending as long as
  the call of one of its batches is; once every batch's call has returned or thrown, it
  resolves with exactly the merge of the data of the batches that returned, assigned in
  the order of their completion (the empty record when there is no batch or every batch
  threw). The first component of a result lists the events of the calls, the second
  tells how the call or the lookup ends.
\<close>

theorem C9_checkLotsOfUsers:
  assumes "completion_order (length (batches_from 0 ids)) completion"
  shows "snd (checkLotsOfUsers completion net ids) \<noteq> Some (Inl e) \<and>
    (None \<in> set (map snd (outcomes_of net (batches_from 0 ids))) \<longrightarrow>
       snd (checkLotsOfUsers completion net ids) = None) \<and>
    (None \<notin> set (map snd (outcomes_of net (batches_from 0 ids))) \<longrightarrow>
       snd (checkLotsOfUsers completion net ids) =
         Some (Inr (merge_all
           (successful_data (map snd (outcomes_of net (batches_from 0 ids))) completion))) \<and>
       set (successful_data (map snd (outcomes_of net (batches_from 0 ids))) completion) =
         {d. Some (Inr d) \<in> set (map snd (outcomes_of net (batches_from 0 ids)))})"
proof -
  let ?outs = "map snd (outcomes_of net (batches_from 0 ids))"
  have co: "completion_order (length ?outs) completion"
    using assms by (simp add: outcomes_of_length)
  then have idx: "\<forall>i \<in> set completion. i < length ?outs"
    by (simp add: completion_order_def)
  show ?thesis
    using fold_assign_merge [OF idx, of Map.empty] successful_data_set [OF co]
    by (simp add: checkLotsOfUsers_eq merge_all_def del: set_map)
qed

text \<open>
  An instance: of two batches the first finds the service down and the second, which
  completes first, is answered.
\<close>

theorem C9_checkLotsOfUsers_witness:
  "completion_order (length (batches_from 0 ids51)) [1, 0] \<and>
   snd (checkLotsOfUsers [1, 0] net_first_fails ids51) = Some (Inr [50 \<mapsto> safe_status 50]) \<and>
   snd (checkLotsOfUsers [1, 0] net_first_fails ids51) \<noteq> Some (Inl (NetworkError ''down''))"
proof -
  have co: "completion_order (length (batches_from 0 ids51)) [1, 0]"
    by (auto simp: batches_ids51 completion_order_def)
  have outs: "map snd (outcomes_of net_first_fails (batches_from 0 ids51)) =
      [Some (Inl (NetworkError ''down'')), Some (Inr [50 \<mapsto> safe_status 50])]"
    by (simp add: batches_ids51 outcomes_of_def net_first_fails_def checkMultipleUsers_def
        MAX_HTTP_RETRIES_def after_def eval_nat_numeral response_ok_def read_result_def
        ok_response_def)
  have m: "merge_all (successful_data
      [Some (Inl (NetworkError ''down'')), Some (Inr [50 \<mapsto> safe_status 50])] [1, 0]) =
      [50 \<mapsto> safe_status 50]"
    by (simp add: successful_data_def merge_all_def)
  show ?thesis
    using C9_checkLotsOfUsers [OF co, of net_first_fails "NetworkError ''down''"] co
    unfolding outs m by simp
qed

section \<open>Batch sizes\<close>

text \<open>
  Claim C7: \<open>N\<close> identifiers are cut into \<open>(N + B - 1) div B\<close> batches, the
  ceiling of \<open>N / B\<close>, with \<open>B = 50\<close>: every batch but the last has \<open>B\<close>
  identifiers, the last has \<open>N mod B\<close> (or \<open>B\<close> when \<open>B\<close> divides \<open>N\<close>), and the
  batches in their order make up the list. The Verification Client calls
  \<^verbatim>\<open>checkMultipleUsers\<close> once for each of these batches, in their order, and every
  request of a call carries the identifiers of its batch.

  The log of a source holds the calls its lookups have made. For a stream of \<open>N\<close>
  identifiers none of which was seen or cached before (the identifiers are distinct,
  none is in the run cache when the source is entered, and the service answers only
  what it is asked, so that none enters the cache before it arrives), the calls made
  where the source stops are for the first batches of the stream, and for all of them
  when the source has been processed to its end, which it is when the stream is
  exhausted and every request loop ends. For any stream, the calls are for the batches
  of the list of its identifiers that were neither seen nor cached when they arrived.
\<close>

theorem C7_batches:
  "length (batches_from 0 ids) = (length ids + BATCH_SIZE - 1) div BATCH_SIZE \<and>
   (\<forall>b \<in> set (butlast (batches_from 0 ids)). length b = BATCH_SIZE) \<and>
   (ids \<noteq> [] \<longrightarrow>
      length (last (batches_from 0 ids)) =
        (if length ids mod BATCH_SIZE = 0 then BATCH_SIZE else length ids mod BATCH_SIZE)) \<and>
   concat (batches_from 0 ids) = ids \<and>
   map userIds_of (fst (checkLotsOfUsers completion net ids)) = batches_from 0 ids \<and>
   (\<forall>evs \<in> set (fst (checkLotsOfUsers completion net ids)).
      \<forall>r. Fetch r \<in> set evs \<longrightarrow> r = userIds_of evs) \<and>
   (distinct ids \<and> set ids \<inter> dom (statusCache g) = {} \<and> answers_requested svc \<longrightarrow>
      (\<exists>L n. lookups (fst (processEntries svc label (ids, e) g)) = lookups g @ L \<and>
         map batch L = take n (batches_from 0 ids) \<and>
         (snd (processEntries svc label (ids, e) g) = Resolved \<longrightarrow>
            map batch L = batches_from 0 ids))) \<and>
   (always_settles svc \<longrightarrow> snd (processEntries svc label (ids, Done) g) = Resolved) \<and>
   (\<exists>L unseen. lookups (fst (processEntries svc label entryStream g)) = lookups g @ L \<and>
      map batch L = batches_from 0 unseen \<and> distinct unseen \<and>
      set unseen \<subseteq> set (fst entryStream) - dom (statusCache g))"
proof -
  have fresh: "\<exists>L n. lookups (fst (processEntries svc label (ids, e) g)) = lookups g @ L \<and>
         map batch L = take n (batches_from 0 ids) \<and>
         (snd (processEntries svc label (ids, e) g) = Resolved \<longrightarrow>
            map batch L = batches_from 0 ids)"
    if "distinct ids" "set ids \<inter> dom (statusCache g) = {}" "answers_requested svc"
    using processEntries_fresh [of "(ids, e)" g svc label
        "fst (processEntries svc label (ids, e) g)" "snd (processEntries svc label (ids, e) g)"]
      that
    by simp
  have general: "\<exists>L unseen. lookups (fst (processEntries svc label entryStream g)) = lookups g @ L \<and>
      map batch L = batches_from 0 unseen \<and> distinct unseen \<and>
      set unseen \<subseteq> set (fst entryStream) - dom (statusCache g)"
    using processEntries_lookups [of svc label entryStream g
        "fst (processEntries svc label entryStream g)"
        "snd (processEntries svc label entryStream g)"]
    by auto
  have requests: "\<forall>evs \<in> set (fst (checkLotsOfUsers completion net ids)).
      \<forall>r. Fetch r \<in> set evs \<longrightarrow> r = userIds_of evs"
    using requests_of_calls [of _ completion net ids] by blast
  show ?thesis
    using length_batches_from [of 0 ids] butlast_batches_from [of _ 0 ids]
      last_batches_from [of 0 ids] concat_batches_from [of 0 ids]
      checkLotsOfUsers_calls [of completion net ids] requests fresh general
      settles_processEntries [of svc label ids g]
    by simp
qed

text \<open>
  An instance: a stream of 51 new identifiers is looked up as a batch of 50 and a batch
  of one.
\<close>

theorem C7_batches_witness:
  "snd (processEntries knowing_service ''group:1'' (ids51, Done) start_of_run) = Resolved \<and>
   map batch (lookups (fst (processEntries knowing_service ''group:1'' (ids51, Done)
     start_of_run))) = [map int [0..<50], [50]] \<and>
   map userIds_of (fst (checkLotsOfUsers [1, 0] net_first_fails ids51)) =
     [map int [0..<50], [50]] \<and>
   length (batches_from 0 ids51) = 2 \<and>
   length (last (batches_from 0 ids51)) = 1 \<and>
   concat (batches_from 0 ids51) = ids51"
proof -
  have d: "distinct ids51"
    by (simp add: ids51_def distinct_map)
  have c: "set ids51 \<inter> dom (statusCache start_of_run) = {}"
    by (simp add: start_of_run_def)
  have l: "lookups start_of_run = []"
    by (simp add: start_of_run_def)
  have n: "ids51 \<noteq> []" "length ids51 = 51"
    by (simp_all add: ids51_def)
  note inst = C7_batches [of ids51 "[1, 0]" net_first_fails start_of_run knowing_service
      "''group:1''" Done "(ids51, Done)"]
  have r: "snd (processEntries knowing_service ''group:1'' (ids51, Done) start_of_run) = Resolved"
    using inst always_settles_knowing by blast
  have "\<exists>L n. lookups (fst (processEntries knowing_service ''group:1'' (ids51, Done)
        start_of_run)) = lookups start_of_run @ L \<and>
      map batch L = take n (batches_from 0 ids51) \<and>
      (snd (processEntries knowing_service ''group:1'' (ids51, Done) start_of_run) = Resolved \<longrightarrow>
         map batch L = batches_from 0 ids51)"
    using inst d c answers_requested_knowing by blast
  then have b: "map batch (lookups (fst (processEntries knowing_service ''group:1''
      (ids51, Done) start_of_run))) = [map int [0..<50], [50]]"
    using r by (auto simp: l batches_ids51)
  have "map userIds_of (fst (checkLotsOfUsers [1, 0] net_first_fails ids51)) =
      batches_from 0 ids51"
    using inst by blast
  moreover have "length (batches_from 0 ids51) = 2" "length (last (batches_from 0 ids51)) = 1"
    "concat (batches_from 0 ids51) = ids51"
    using inst n by (simp_all add: BATCH_SIZE_def)
  ultimately show ?thesis
    using r b by (simp add: batches_ids51)
qed

end
